theory Spec2Isabelle
  imports Complex_Main
begin

section \<open>Simulation parameters (os_mpi.py, lines 11-22)\<close>

text \<open>
  \<^verbatim>\<open>size\<close> is the number of MPI ranks; the controller is rank 0 and every other rank
  runs \<^verbatim>\<open>worker_loop\<close>. \<^verbatim>\<open>SIM_DELAY\<close> only scales wall-clock sleeps and is not part
  of the model.
\<close>

definition TIME_QUANTUM :: int where
  "TIME_QUANTUM = 2"

definition NUM_CPUS :: int where
  "NUM_CPUS = 3"

definition RUNNING_WITH_MPI :: "int \<Rightarrow> bool" where
  "RUNNING_WITH_MPI sz = (sz > 1)"

definition cpu_count :: "int \<Rightarrow> int" where
  "cpu_count sz = (if RUNNING_WITH_MPI sz then sz - 1 else NUM_CPUS)"

section \<open>Data model\<close>

text \<open>
  Class \<^verbatim>\<open>Process\<close> (lines 34-48). The colour is presentation only and is left out.
  An execution-history entry is \<^verbatim>\<open>(cpu_id, start_time, end_time)\<close>.
\<close>

record process =
  pid :: int
  burst :: int
  arrival :: int
  remaining :: int
  start_time :: "int option"
  end_time :: "int option"
  execution_history :: "(int \<times> int \<times> int) list"

definition Process :: "int \<Rightarrow> int \<Rightarrow> int \<Rightarrow> process" where
  "Process p b a =
     \<lparr>pid = p, burst = b, arrival = a, remaining = b,
      start_time = None, end_time = None, execution_history = []\<rparr>"

text \<open>Exceptions that escape a function are values of this type.\<close>

datatype error = ValueError

text \<open>
  A request on the wire is \<^verbatim>\<open>(pid, run)\<close>, where the first component is a process id
  or the string \<^verbatim>\<open>"STOP"\<close>.
\<close>

datatype req_id = ProcId int | STOP

type_synonym request = "req_id \<times> int"

text \<open>
  The lines that \<^verbatim>\<open>run_scheduler\<close>, \<^verbatim>\<open>show_completion_stats\<close> and \<^verbatim>\<open>reset\<close> write with
  \<^verbatim>\<open>self.log\<close>, one constructor per format string. \<open>LogDispatch\<close> carries the CPU,
  the pid, the remaining time before the slice and the run length (line 554).
\<close>

datatype log_entry =
    LogUsing string
  | LogProcessQueue
  | LogProcess int int int
  | LogSchedulingStarted
  | LogDispatch int int int int
  | LogRecvError
  | LogRequeued int int
  | LogCompleted int
  | LogAllCompleted
  | LogStatistics
  | LogAvgTurnaround rat
  | LogAvgWaiting rat
  | LogReset

text \<open>
  The attributes of \<^verbatim>\<open>SchedulerApp\<close> that the scheduler reads and writes. Python shares
  each \<^verbatim>\<open>Process\<close> object between \<^verbatim>\<open>self.processes\<close> and \<^verbatim>\<open>self.queue_proc\<close>, so the
  list \<open>processes\<close> is the store of the objects and the queue holds references into it
  (positions in \<open>processes\<close>). \<open>polls\<close> counts the calls of \<^verbatim>\<open>stop_event.is_set()\<close>,
  \<open>recvs\<close> the calls of \<^verbatim>\<open>comm.recv\<close>, and \<open>sent\<close> records every \<^verbatim>\<open>comm.send\<close> with its
  destination rank.
\<close>

record state =
  processes :: "process list"
  queue_proc :: "nat list"
  clock :: int
  simulation_history :: "(int \<times> int \<times> int) list"
  stop_event :: bool
  pause_event :: bool
  log_box :: "log_entry list"
  polls :: nat
  recvs :: nat
  sent :: "(int \<times> request) list"

text \<open>
  What the run does not decide itself: the number of ranks, the algorithm chosen in the
  combo box, the moment the user thread sets \<^verbatim>\<open>stop_event\<close> (just before the poll with
  that number, if at all), the outcome of the k-th \<^verbatim>\<open>comm.recv\<close> (\<open>None\<close> when it
  raises, \<open>Some r\<close> when it returns \<open>r\<close>) and the raw randomness behind the i-th call of
  \<^verbatim>\<open>random.randint\<close>.
\<close>

record env =
  mpi_size :: int
  algo_var :: string
  stop_at :: "nat option"
  recv :: "nat \<Rightarrow> int option"
  entropy :: "nat \<Rightarrow> nat"

section \<open>Worker (lines 648-655)\<close>

text \<open>
  One iteration of \<^verbatim>\<open>worker_loop\<close>: \<open>Inr None\<close> is the \<^verbatim>\<open>break\<close> on the sentinel,
  \<open>Inr (Some r)\<close> is the reply sent to rank 0. \<^verbatim>\<open>time.sleep\<close> raises \<^verbatim>\<open>ValueError\<close> on a
  negative length, which ends the worker before it replies.
\<close>

definition worker_step :: "request \<Rightarrow> error + int option" where
  "worker_step rq =
     (case rq of (p, b) \<Rightarrow>
        if p = STOP then Inr None
        else if b < 0 then Inl ValueError
        else Inr (Some (max 0 (b - TIME_QUANTUM))))"

datatype worker_state = WaitingForWork | Stopped | Crashed error

text \<open>
  The loop over the requests that arrive, in order. It returns the replies sent and the
  state the worker is left in; when the requests run out the worker blocks in
  \<^verbatim>\<open>comm.recv\<close>.
\<close>

fun worker_loop :: "request list \<Rightarrow> int list \<times> worker_state" where
  "worker_loop [] = ([], WaitingForWork)"
| "worker_loop (rq # rqs) =
     (case worker_step rq of
        Inl err \<Rightarrow> ([], Crashed err)
      | Inr None \<Rightarrow> ([], Stopped)
      | Inr (Some r) \<Rightarrow> (case worker_loop rqs of (rs, st) \<Rightarrow> (r # rs, st)))"

section \<open>Controller\<close>

definition log :: "log_entry \<Rightarrow> state \<Rightarrow> state" where
  "log msg s = s\<lparr>log_box := log_box s @ [msg]\<rparr>"

text \<open>In-place update of the process object behind reference \<open>pr\<close>.\<close>

definition update_proc :: "nat \<Rightarrow> (process \<Rightarrow> process) \<Rightarrow> state \<Rightarrow> state" where
  "update_proc pr f s = s\<lparr>processes := (processes s)[pr := f (processes s ! pr)]\<rparr>"

text \<open>
  \<^verbatim>\<open>self.stop_event.is_set()\<close>: the user thread's \<^verbatim>\<open>stop_event.set()\<close> lands before the
  poll numbered \<open>stop_at\<close>; the flag stays set for the rest of the run.
\<close>

definition is_set :: "env \<Rightarrow> state \<Rightarrow> bool \<times> state" where
  "is_set e s =
     (let s1 = (if (case stop_at e of None \<Rightarrow> False | Some k \<Rightarrow> k \<le> polls s)
                then s\<lparr>stop_event := True\<rparr> else s)
      in (stop_event s1, s1\<lparr>polls := Suc (polls s1)\<rparr>))"

text \<open>
  The \<^verbatim>\<open>for t in range(run_time)\<close> loop of \<^verbatim>\<open>simulate_process\<close> (lines 498-505); the
  result is \<open>True\<close> when the loop left through \<^verbatim>\<open>return 0\<close>. \<^verbatim>\<open>pause_event.wait()\<close> only
  delays the thread.
\<close>

fun unit_loop :: "env \<Rightarrow> nat \<Rightarrow> state \<Rightarrow> bool \<times> state" where
  "unit_loop e 0 s = (False, s)"
| "unit_loop e (Suc n) s =
     (case is_set e s of (stopped, s1) \<Rightarrow>
        if stopped then (True, s1) else unit_loop e n s1)"

text \<open>\<^verbatim>\<open>simulate_process\<close> (lines 489-511).\<close>

definition simulate_process :: "env \<Rightarrow> int \<Rightarrow> nat \<Rightarrow> int \<Rightarrow> state \<Rightarrow> int \<times> state" where
  "simulate_process e cpu_id pr run_time s =
     (let proc_start_time = clock s in
      case unit_loop e (nat run_time) s of (stopped, s1) \<Rightarrow>
        if stopped then (0, s1)
        else
          let proc_end_time = clock s1 + run_time;
              s2 = update_proc pr (\<lambda>p. p\<lparr>execution_history :=
                     execution_history p @ [(cpu_id, proc_start_time, proc_end_time)]\<rparr>) s1
          in (max 0 (remaining (processes s2 ! pr) - run_time), s2))"

text \<open>
  The MPI branch of the dispatch (lines 557-574). \<^verbatim>\<open>time.sleep(SIM_DELAY * run)\<close> raises
  on a negative \<open>run\<close>; an exception of \<^verbatim>\<open>comm.recv\<close> is caught and replaced by the
  fallback value.
\<close>

definition mpi_execute :: "env \<Rightarrow> int \<Rightarrow> nat \<Rightarrow> int \<Rightarrow> state \<Rightarrow> error + (int \<times> state)" where
  "mpi_execute e cpu_id pr run s =
     (let s1 = s\<lparr>sent := sent s @ [(cpu_id, (ProcId (pid (processes s ! pr)), run))]\<rparr>;
          proc_start_time = clock s1
      in if run < 0 then Inl ValueError
         else
           case (case recv e (recvs s1) of
                   Some r \<Rightarrow> (r, s1\<lparr>recvs := Suc (recvs s1)\<rparr>)
                 | None \<Rightarrow> (max 0 (remaining (processes s1 ! pr) - run),
                             log LogRecvError (s1\<lparr>recvs := Suc (recvs s1)\<rparr>)))
           of (remaining', s2) \<Rightarrow>
             let proc_end_time = clock s2 + run;
                 s3 = update_proc pr (\<lambda>p. p\<lparr>execution_history :=
                        execution_history p @ [(cpu_id, proc_start_time, proc_end_time)]\<rparr>) s2
             in Inr (remaining', s3))"

text \<open>Line 546: the length of the slice.\<close>

definition run_length :: "env \<Rightarrow> process \<Rightarrow> int" where
  "run_length e p =
     (if algo_var e = ''Round Robin'' then min TIME_QUANTUM (remaining p) else remaining p)"

text \<open>
  The body of the \<^verbatim>\<open>for cpu_id\<close> loop from line 546 on, for the process \<open>pr\<close> that
  \<^verbatim>\<open>popleft\<close> has just taken from the queue.
\<close>

definition dispatch :: "env \<Rightarrow> int \<Rightarrow> nat \<Rightarrow> state \<Rightarrow> error + state" where
  "dispatch e cpu_id pr s =
     (let p = processes s ! pr;
          run = run_length e p;
          s1 = (if start_time p = None
                then update_proc pr (\<lambda>p. p\<lparr>start_time := Some (clock s)\<rparr>) s else s);
          s2 = log (LogDispatch cpu_id (pid p) (remaining p) run) s1
      in case (if RUNNING_WITH_MPI (mpi_size e) then mpi_execute e cpu_id pr run s2
               else Inr (simulate_process e cpu_id pr run s2)) of
           Inl err \<Rightarrow> Inl err
         | Inr (remaining', s3) \<Rightarrow>
             let s4 = s3\<lparr>clock := clock s3 + run\<rparr>;
                 s5 = update_proc pr (\<lambda>p. p\<lparr>remaining := remaining'\<rparr>) s4;
                 s6 = (if remaining' = 0
                       then update_proc pr (\<lambda>p. p\<lparr>end_time := Some (clock s5)\<rparr>) s5 else s5)
             in Inr (if remaining' > 0
                     then (if algo_var e = ''Round Robin''
                           then log (LogRequeued (pid p) remaining')
                                  (s6\<lparr>queue_proc := queue_proc s6 @ [pr]\<rparr>)
                           else s6)
                     else log (LogCompleted (pid p)) s6))"

text \<open>
  The \<^verbatim>\<open>for cpu_id in range(1, cpu_count + 1)\<close> loop (lines 541-602). The test
  \<^verbatim>\<open>not self.queue_proc or self.stop_event.is_set()\<close> polls the flag only when the queue
  is not empty.
\<close>

fun cpu_loop :: "env \<Rightarrow> int list \<Rightarrow> state \<Rightarrow> error + state" where
  "cpu_loop e [] s = Inr s"
| "cpu_loop e (cpu_id # rest) s =
     (case queue_proc s of
        [] \<Rightarrow> Inr s
      | pr # q \<Rightarrow>
          (case is_set e s of (stopped, s1) \<Rightarrow>
             if stopped then Inr s1
             else (case dispatch e cpu_id pr (s1\<lparr>queue_proc := q\<rparr>) of
                     Inl err \<Rightarrow> Inl err
                   | Inr s2 \<Rightarrow> cpu_loop e rest s2)))"

text \<open>\<^verbatim>\<open>sorted(..., key=lambda p: p.arrival)\<close> on references: a stable sort.\<close>

definition sorted_by_arrival :: "process list \<Rightarrow> nat list \<Rightarrow> nat list" where
  "sorted_by_arrival ps refs = sort_key (\<lambda>r. arrival (ps ! r)) refs"

text \<open>
  The \<^verbatim>\<open>while\<close> loop (lines 532-605). Nothing in the code bounds the number of rounds
  (a worker may keep answering with a positive remainder), so the loop takes fuel, one
  unit per round; \<open>None\<close> means the fuel ran out.
\<close>

fun scheduler_loop :: "env \<Rightarrow> nat \<Rightarrow> state \<Rightarrow> (error + state) option" where
  "scheduler_loop e 0 s = None"
| "scheduler_loop e (Suc n) s =
     (if queue_proc s = [] then Some (Inr s)
      else case is_set e s of (stopped, s1) \<Rightarrow>
        if stopped then Some (Inr s1)
        else
          let s2 = (if algo_var e = ''FCFS''
                    then s1\<lparr>queue_proc := sorted_by_arrival (processes s1) (queue_proc s1)\<rparr>
                    else s1)
          in case cpu_loop e [1..cpu_count (mpi_size e)] s2 of
               Inl err \<Rightarrow> Some (Inl err)
             | Inr s3 \<Rightarrow> scheduler_loop e n s3)"

text \<open>
  \<^verbatim>\<open>random.randint(a, b)\<close> returns an integer between \<open>a\<close> and \<open>b\<close>, both included;
  \<open>r\<close> is the raw randomness it consumes.
\<close>

definition randint :: "int \<Rightarrow> int \<Rightarrow> nat \<Rightarrow> int" where
  "randint a b r = a + int (r mod nat (b - a + 1))"

text \<open>Lines 515-528: the processes of a run, the initial queue and the clock.\<close>

definition generate_processes :: "env \<Rightarrow> process list" where
  "generate_processes e =
     map (\<lambda>i. Process (int i + 1) (randint 4 10 (entropy e i)) (int i)) [0..<6]"

definition init_run :: "env \<Rightarrow> state \<Rightarrow> state" where
  "init_run e s =
     (let s1 = log (LogUsing (algo_var e)) s;
          ps = generate_processes e;
          s2 = s1\<lparr>processes := ps,
                  queue_proc := sorted_by_arrival ps [0..<length ps],
                  clock := 0\<rparr>;
          s3 = log LogProcessQueue s2;
          s4 = fold (\<lambda>p. log (LogProcess (pid p) (burst p) (arrival p))) (processes s3) s3
      in log LogSchedulingStarted s4)"

text \<open>
  \<^verbatim>\<open>show_completion_stats\<close> (lines 614-629). Python's \<^verbatim>\<open>/\<close> on two integers is the
  quotient rounded to a double; the model keeps the exact quotient.
\<close>

definition completed_processes :: "process list \<Rightarrow> process list" where
  "completed_processes ps = filter (\<lambda>p. end_time p \<noteq> None) ps"

definition completion_stats :: "process list \<Rightarrow> (rat \<times> rat) option" where
  "completion_stats ps =
     (let cp = completed_processes ps in
      if cp = [] then None
      else
        let total_turnaround = (\<Sum>p\<leftarrow>cp. the (end_time p) - arrival p);
            avg_turnaround = of_int total_turnaround / of_int (int (length cp));
            total_waiting = (\<Sum>p\<leftarrow>cp. the (end_time p) - arrival p - burst p);
            avg_waiting = of_int total_waiting / of_int (int (length cp))
        in Some (avg_turnaround, avg_waiting))"

definition show_completion_stats :: "state \<Rightarrow> state" where
  "show_completion_stats s =
     (case completion_stats (processes s) of
        None \<Rightarrow> s
      | Some (avg_turnaround, avg_waiting) \<Rightarrow>
          log (LogAvgWaiting avg_waiting)
            (log (LogAvgTurnaround avg_turnaround) (log LogStatistics s)))"

text \<open>\<^verbatim>\<open>run_scheduler\<close> (lines 513-612).\<close>

definition run_scheduler :: "env \<Rightarrow> nat \<Rightarrow> state \<Rightarrow> (error + state) option" where
  "run_scheduler e fuel s =
     (case scheduler_loop e fuel (init_run e s) of
        None \<Rightarrow> None
      | Some (Inl err) \<Rightarrow> Some (Inl err)
      | Some (Inr s1) \<Rightarrow>
          (case is_set e s1 of (stopped, s2) \<Rightarrow>
             if \<not> stopped then Some (Inr (show_completion_stats (log LogAllCompleted s2)))
             else Some (Inr s2)))"

text \<open>
  \<^verbatim>\<open>reset\<close> (lines 337-361). The join waits at most one second for the scheduler thread;
  the widgets it clears are presentation.
\<close>

definition reset :: "state \<Rightarrow> state" where
  "reset s =
     log LogReset
       (s\<lparr>stop_event := True, pause_event := True, clock := 0, simulation_history := []\<rparr>)"

text \<open>The state \<^verbatim>\<open>SchedulerApp.__init__\<close> leaves (lines 191-200).\<close>

definition initial_state :: state where
  "initial_state =
     \<lparr>processes = [], queue_proc = [], clock = 0, simulation_history = [],
      stop_event = False, pause_event = True, log_box = [],
      polls = 0, recvs = 0, sent = []\<rparr>"

text \<open>
  \<^verbatim>\<open>start\<close> (lines 309-318) when no scheduler thread is alive: both events are put in
  their running position and \<^verbatim>\<open>run_scheduler\<close> runs on the new thread. The message
  \<^verbatim>\<open>Simulation started\<close> is written by the calling thread and is not part of the run's log.
\<close>

definition start :: "env \<Rightarrow> nat \<Rightarrow> state \<Rightarrow> (error + state) option" where
  "start e fuel s = run_scheduler e fuel (s\<lparr>stop_event := False, pause_event := True\<rparr>)"

section \<open>Notions used to state the properties\<close>

text \<open>
  Whether the local slice of \<open>pr\<close>, started in state \<open>s\<close>, is cut short by the stop flag,
  and the value the backend hands back for that slice: the worker's answer or the
  fallback under MPI, the result of \<^verbatim>\<open>simulate_process\<close> otherwise.
\<close>

definition slice_stopped :: "env \<Rightarrow> nat \<Rightarrow> state \<Rightarrow> bool" where
  "slice_stopped e pr s =
     (\<not> RUNNING_WITH_MPI (mpi_size e) \<and>
      fst (unit_loop e (nat (run_length e (processes s ! pr))) s))"

definition slice_remaining :: "env \<Rightarrow> nat \<Rightarrow> state \<Rightarrow> int" where
  "slice_remaining e pr s =
     (let p = processes s ! pr; run = run_length e p in
      if RUNNING_WITH_MPI (mpi_size e)
      then (case recv e (recvs s) of Some r \<Rightarrow> r | None \<Rightarrow> max 0 (remaining p - run))
      else if fst (unit_loop e (nat run) s) then 0 else max 0 (remaining p - run))"

text \<open>The run lengths of the dispatches a log records (the last field of line 554).\<close>

fun dispatched_runs :: "log_entry list \<Rightarrow> int list" where
  "dispatched_runs [] = []"
| "dispatched_runs (LogDispatch c p r run # l) = run # dispatched_runs l"
| "dispatched_runs (x # l) = dispatched_runs l"

text \<open>The time a process has been given: the total length of its history intervals.\<close>

definition executed :: "process \<Rightarrow> int" where
  "executed p = (\<Sum>(c, t0, t1) \<leftarrow> execution_history p. t1 - t0)"

text \<open>The bookkeeping invariant of one process (section 3 of the specification).\<close>

definition accounted :: "process \<Rightarrow> bool" where
  "accounted p =
     (remaining p = burst p - executed p \<and> 0 \<le> remaining p \<and>
      ((end_time p \<noteq> None) = (remaining p = 0)))"

text \<open>
  The ready queue holds pairwise different references to existing processes that still
  have work left.
\<close>

definition queue_inv :: "state \<Rightarrow> bool" where
  "queue_inv s =
     (distinct (queue_proc s) \<and>
      list_all (\<lambda>r. r < length (processes s) \<and> 0 < remaining (processes s ! r)) (queue_proc s))"


text \<open>The work waiting in the ready queue: the measure that bounds the rounds of a run.\<close>

definition work_left :: "state \<Rightarrow> nat" where
  "work_left s = (\<Sum>r\<leftarrow>queue_proc s. nat (remaining (processes s ! r)))"

text \<open>
  From \<open>s\<close> to \<open>s'\<close> the log has only grown, every dispatch it gained ran for a positive
  length, and the clock has moved by the sum of these lengths.
\<close>

definition advanced :: "state \<Rightarrow> state \<Rightarrow> bool" where
  "advanced s s' =
     (let new = drop (length (log_box s)) (log_box s') in
      log_box s' = log_box s @ new \<and>
      clock s' = clock s + sum_list (dispatched_runs new) \<and>
      list_all (\<lambda>r. 0 < r) (dispatched_runs new))"

section \<open>Concrete runs used to exercise the theorems\<close>

text \<open>
  A local Round Robin run whose six bursts are all 4 and that nobody stops; the other
  environments vary one field of it.
\<close>

definition env_local_rr :: env where
  "env_local_rr =
     \<lparr>mpi_size = 1, algo_var = ''Round Robin'', stop_at = None,
      recv = (\<lambda>k. None), entropy = (\<lambda>i. 0)\<rparr>"

definition env_local_fcfs :: env where
  "env_local_fcfs = env_local_rr\<lparr>algo_var := ''FCFS''\<rparr>"

text \<open>
  Four ranks, so three workers. Line 567 calls \<^verbatim>\<open>comm.recv(source=cpu_id, timeout=5)\<close>,
  and the \<^verbatim>\<open>recv\<close> of mpi4py takes \<^verbatim>\<open>buf\<close>, \<^verbatim>\<open>source\<close>, \<^verbatim>\<open>tag\<close> and \<^verbatim>\<open>status\<close> but no
  \<^verbatim>\<open>timeout\<close>: the call raises \<^verbatim>\<open>TypeError\<close> on every dispatch and the \<^verbatim>\<open>except\<close> branch
  supplies the value. The runs the program performs under MPI are therefore those of
  \<open>env_mpi_down\<close> and \<open>env_mpi_down_fcfs\<close>, in which every receive fails. \<open>env_mpi_rr\<close>
  is the run in which each receive delivers what the worker sent, \<open>max 0 (2 - TIME_QUANTUM) = 0\<close>
  for the run length 2 of a Round Robin request.
\<close>

definition env_mpi_rr :: env where
  "env_mpi_rr = env_local_rr\<lparr>mpi_size := 4, recv := (\<lambda>k. Some 0)\<rparr>"

definition env_mpi_down :: env where
  "env_mpi_down = env_local_rr\<lparr>mpi_size := 4\<rparr>"


text \<open>
  Local runs that the user stops: during the first unit of the first slice (Round
  Robin), during the second unit of the first slice (FCFS), and between the first and
  the second slice.
\<close>

definition env_stop_first_unit :: env where
  "env_stop_first_unit = env_local_rr\<lparr>stop_at := Some 2\<rparr>"

definition env_stop_mid_slice :: env where
  "env_stop_mid_slice = env_local_fcfs\<lparr>stop_at := Some 3\<rparr>"

definition env_stop_between :: env where
  "env_stop_between = env_local_rr\<lparr>stop_at := Some 4\<rparr>"

text \<open>The state in which the first dispatch of a run starts, and the state a run ends in.\<close>

definition first_state :: "env \<Rightarrow> state" where
  "first_state e = init_run e initial_state"

definition final_state :: "env \<Rightarrow> state" where
  "final_state e = projr (the (start e 20 initial_state))"

section \<open>What one dispatch does\<close>

lemma log_fields [simp]:
  "processes (log m s) = processes s" "queue_proc (log m s) = queue_proc s"
  "clock (log m s) = clock s" "log_box (log m s) = log_box s @ [m]"
  "polls (log m s) = polls s" "recvs (log m s) = recvs s" "sent (log m s) = sent s"
  "stop_event (log m s) = stop_event s" "simulation_history (log m s) = simulation_history s"
  by (simp_all add: log_def)

lemma update_proc_fields [simp]:
  "queue_proc (update_proc pr f s) = queue_proc s"
  "clock (update_proc pr f s) = clock s" "log_box (update_proc pr f s) = log_box s"
  "polls (update_proc pr f s) = polls s" "recvs (update_proc pr f s) = recvs s"
  "sent (update_proc pr f s) = sent s" "stop_event (update_proc pr f s) = stop_event s"
  "length (processes (update_proc pr f s)) = length (processes s)"
  by (simp_all add: update_proc_def)

lemma update_proc_nth:
  "pr < length (processes s) \<Longrightarrow>
   processes (update_proc pr f s) ! i = (if i = pr then f (processes s ! pr) else processes s ! i)"
  by (simp add: update_proc_def nth_list_update)

lemma is_set_fields:
  "processes (snd (is_set e s)) = processes s" "queue_proc (snd (is_set e s)) = queue_proc s"
  "clock (snd (is_set e s)) = clock s" "log_box (snd (is_set e s)) = log_box s"
  "recvs (snd (is_set e s)) = recvs s" "sent (snd (is_set e s)) = sent s"
  "polls (snd (is_set e s)) = Suc (polls s)"
  by (simp_all add: is_set_def Let_def)

lemma unit_loop_fields:
  "processes (snd (unit_loop e n s)) = processes s \<and> queue_proc (snd (unit_loop e n s)) = queue_proc s \<and>
   clock (snd (unit_loop e n s)) = clock s \<and> log_box (snd (unit_loop e n s)) = log_box s \<and>
   recvs (snd (unit_loop e n s)) = recvs s \<and> sent (snd (unit_loop e n s)) = sent s"
proof (induction n arbitrary: s)
  case 0
  show ?case by simp
next
  case (Suc n)
  obtain b s1 where st: "is_set e s = (b, s1)" by (cases "is_set e s")
  have s1: "s1 = snd (is_set e s)" by (simp add: st)
  show ?case using Suc[of s1] by (simp add: st) (simp add: s1 is_set_fields)
qed

text \<open>The result of a local slice, by whether the unit loop saw the stop flag.\<close>

lemma simulate_process_result:
  assumes "pr < length (processes s)"
  shows "simulate_process e c pr run s = (rem, s') \<Longrightarrow>
     clock s' = clock s \<and> queue_proc s' = queue_proc s \<and> log_box s' = log_box s \<and>
     length (processes s') = length (processes s) \<and>
     (if fst (unit_loop e (nat run) s)
      then rem = 0 \<and> processes s' = processes s
      else rem = max 0 (remaining (processes s ! pr) - run) \<and>
           processes s' = (processes s)[pr := (processes s ! pr)\<lparr>execution_history :=
              execution_history (processes s ! pr) @ [(c, clock s, clock s + run)]\<rparr>])"
proof -
  assume a: "simulate_process e c pr run s = (rem, s')"
  obtain b s1 where ul: "unit_loop e (nat run) s = (b, s1)" by (cases "unit_loop e (nat run) s")
  have s1: "s1 = snd (unit_loop e (nat run) s)" by (simp add: ul)
  note f = unit_loop_fields[of e "nat run" s, folded s1]
  show ?thesis
  proof (cases b)
    case True
    with a ul have "rem = 0" "s' = s1" by (simp_all add: simulate_process_def)
    with True ul f show ?thesis by simp
  next
    case False
    with a ul have r: "rem = max 0 (remaining (processes (update_proc pr (\<lambda>p. p\<lparr>execution_history :=
                     execution_history p @ [(c, clock s, clock s1 + run)]\<rparr>) s1) ! pr) - run)"
      and s': "s' = update_proc pr (\<lambda>p. p\<lparr>execution_history :=
                     execution_history p @ [(c, clock s, clock s1 + run)]\<rparr>) s1"
      by (auto simp add: simulate_process_def Let_def)
    from assms f have len: "pr < length (processes s1)" by simp
    show ?thesis using False ul f assms
      by (simp add: r s' update_proc_nth[OF len]) (simp add: update_proc_def)
  qed
qed

lemma mpi_execute_result:
  assumes "pr < length (processes s)"
  shows "mpi_execute e c pr run s = Inr (rem, s') \<Longrightarrow>
     0 \<le> run \<and> clock s' = clock s \<and> queue_proc s' = queue_proc s \<and>
     length (processes s') = length (processes s) \<and>
     processes s' = (processes s)[pr := (processes s ! pr)\<lparr>execution_history :=
              execution_history (processes s ! pr) @ [(c, clock s, clock s + run)]\<rparr>] \<and>
     (case recv e (recvs s) of
        Some r \<Rightarrow> rem = r \<and> log_box s' = log_box s
      | None \<Rightarrow> rem = max 0 (remaining (processes s ! pr) - run) \<and>
                 log_box s' = log_box s @ [LogRecvError])"
  by (cases "recv e (recvs s)")
     (auto simp add: mpi_execute_def Let_def update_proc_def split: if_splits)

lemma mpi_execute_Inr:
  "0 \<le> run \<Longrightarrow> \<exists>rem s'. mpi_execute e c pr run s = Inr (rem, s')"
  by (cases "recv e (recvs s)") (simp_all add: mpi_execute_def Let_def)


lemma is_set_flag:
  "fst (is_set e s) = (stop_event s \<or> (case stop_at e of None \<Rightarrow> False | Some k \<Rightarrow> k \<le> polls s))"
  "stop_event (snd (is_set e s)) = fst (is_set e s)"
  by (simp_all add: is_set_def Let_def)

lemma unit_loop_cong:
  "polls s = polls t \<Longrightarrow> stop_event s = stop_event t \<Longrightarrow>
   fst (unit_loop e n s) = fst (unit_loop e n t)"
proof (induction n arbitrary: s t)
  case 0
  show ?case by simp
next
  case (Suc n)
  have f: "fst (is_set e s) = fst (is_set e t)"
    using Suc.prems by (simp add: is_set_flag split: option.split)
  have "fst (unit_loop e n (snd (is_set e s))) = fst (unit_loop e n (snd (is_set e t)))"
    by (rule Suc.IH) (simp_all add: is_set_fields is_set_flag(2) f Suc.prems)
  with f show ?case by (simp add: split_beta)
qed

lemma unit_loop_log: "fst (unit_loop e n (log m s)) = fst (unit_loop e n s)"
  by (rule unit_loop_cong) simp_all

lemma unit_loop_update_proc:
  "fst (unit_loop e n (update_proc pr f s)) = fst (unit_loop e n s)"
  by (rule unit_loop_cong) simp_all

lemma start_time_same: "start_time p = v \<Longrightarrow> p\<lparr>start_time := v\<rparr> = p"
  by (cases p) simp

lemma list_update_nth_same: "xs[i := f (xs[i := a] ! i)] = xs[i := f a]"
  by (cases "i < length xs") (simp_all add: list_update_beyond not_less)

lemma dispatch_result:
  assumes pr: "pr < length (processes s)" and d: "dispatch e c pr s = Inr s'"
  shows "clock s' = clock s + run_length e (processes s ! pr) \<and>
     queue_proc s' =
       (if 0 < slice_remaining e pr s \<and> algo_var e = ''Round Robin''
        then queue_proc s @ [pr] else queue_proc s) \<and>
     processes s' = (processes s)[pr := (processes s ! pr)
        \<lparr>start_time := (if start_time (processes s ! pr) = None then Some (clock s)
                        else start_time (processes s ! pr)),
         execution_history :=
           (if slice_stopped e pr s then execution_history (processes s ! pr)
            else execution_history (processes s ! pr) @
                   [(c, clock s, clock s + run_length e (processes s ! pr))]),
         remaining := slice_remaining e pr s,
         end_time := (if slice_remaining e pr s = 0
                      then Some (clock s + run_length e (processes s ! pr))
                      else end_time (processes s ! pr))\<rparr>] \<and>
     log_box s' = log_box s @
       [LogDispatch c (pid (processes s ! pr)) (remaining (processes s ! pr))
          (run_length e (processes s ! pr))] @
       (if RUNNING_WITH_MPI (mpi_size e) \<and> recv e (recvs s) = None
        then [LogRecvError] else []) @
       (if 0 < slice_remaining e pr s
        then (if algo_var e = ''Round Robin''
              then [LogRequeued (pid (processes s ! pr)) (slice_remaining e pr s)] else [])
        else [LogCompleted (pid (processes s ! pr))])"
proof -
  define p where "p = processes s ! pr"
  define run where "run = run_length e p"
  define st where "st = (if start_time p = None then Some (clock s) else start_time p)"
  define s1 where "s1 = (if start_time p = None
                then update_proc pr (\<lambda>p. p\<lparr>start_time := Some (clock s)\<rparr>) s else s)"
  define s2 where "s2 = log (LogDispatch c (pid p) (remaining p) run) s1"
  define G where "G = (\<lambda>rem s3.
             let s4 = s3\<lparr>clock := clock s3 + run\<rparr>;
                 s5 = update_proc pr (\<lambda>p. p\<lparr>remaining := rem\<rparr>) s4;
                 s6 = (if rem = 0
                       then update_proc pr (\<lambda>p. p\<lparr>end_time := Some (clock s5)\<rparr>) s5 else s5)
             in (if rem > 0
                     then (if algo_var e = ''Round Robin''
                           then log (LogRequeued (pid p) rem)
                                  (s6\<lparr>queue_proc := queue_proc s6 @ [pr]\<rparr>)
                           else s6)
                     else log (LogCompleted (pid p)) s6))"
  have Gc: "\<And>rem s3. clock (G rem s3) = clock s3 + run"
    by (simp add: G_def Let_def)
  have Gq: "\<And>rem s3. queue_proc (G rem s3) =
      (if 0 < rem \<and> algo_var e = ''Round Robin'' then queue_proc s3 @ [pr] else queue_proc s3)"
    by (simp add: G_def Let_def)
  have Gp: "\<And>rem s3. processes (G rem s3) = (processes s3)[pr := (processes s3 ! pr)
        \<lparr>remaining := rem,
         end_time := (if rem = 0 then Some (clock s3 + run) else end_time (processes s3 ! pr))\<rparr>]"
    by (simp add: G_def Let_def update_proc_def list_update_nth_same)
  have Gl: "\<And>rem s3. log_box (G rem s3) = log_box s3 @
      (if 0 < rem
       then (if algo_var e = ''Round Robin'' then [LogRequeued (pid p) rem] else [])
       else [LogCompleted (pid p)])"
    by (simp add: G_def Let_def)
  have l2: "log_box s2 = log_box s @ [LogDispatch c (pid p) (remaining p) run]"
    by (simp add: s2_def s1_def)
  have len2: "pr < length (processes s2)" using pr by (simp add: s2_def s1_def)
  have ps2: "processes s2 = (processes s)[pr := p\<lparr>start_time := st\<rparr>]"
    using pr by (simp add: s2_def s1_def update_proc_def p_def st_def start_time_same list_update_same_conv)
  have p2: "processes s2 ! pr = p\<lparr>start_time := st\<rparr>"
    using pr by (simp add: ps2)
  have c2: "clock s2 = clock s" "queue_proc s2 = queue_proc s" "recvs s2 = recvs s"
    by (simp_all add: s2_def s1_def)
  have ul2: "fst (unit_loop e (nat run) s2) = fst (unit_loop e (nat run) s)"
    by (simp add: s2_def s1_def unit_loop_log unit_loop_update_proc)
  have dd: "dispatch e c pr s =
     (case (if RUNNING_WITH_MPI (mpi_size e) then mpi_execute e c pr run s2
               else Inr (simulate_process e c pr run s2)) of
           Inl err \<Rightarrow> Inl err
         | Inr (rem, s3) \<Rightarrow> Inr (G rem s3))"
    by (simp only: dispatch_def Let_def G_def s2_def s1_def run_def p_def)
  have "\<exists>s3. s' = G (slice_remaining e pr s) s3 \<and> clock s3 = clock s \<and>
          queue_proc s3 = queue_proc s \<and>
          log_box s3 = log_box s2 @
            (if RUNNING_WITH_MPI (mpi_size e) \<and> recv e (recvs s) = None
             then [LogRecvError] else []) \<and>
          processes s3 = (processes s)[pr := p\<lparr>start_time := st,
             execution_history := (if slice_stopped e pr s then execution_history p
                else execution_history p @ [(c, clock s, clock s + run)])\<rparr>]"
  proof (cases "RUNNING_WITH_MPI (mpi_size e)")
    case True
    from d True obtain rem s3 where ex: "mpi_execute e c pr run s2 = Inr (rem, s3)"
      and s': "s' = G rem s3"
      by (auto simp add: dd split: sum.splits)
    note r = mpi_execute_result[OF len2 ex]
    have rem: "rem = slice_remaining e pr s"
      using r True
      by (simp add: slice_remaining_def Let_def p_def[symmetric] run_def[symmetric] c2 p2
            split: option.splits)
    have "processes s3 = (processes s)[pr := p\<lparr>start_time := st,
             execution_history := execution_history p @ [(c, clock s, clock s + run)]\<rparr>]"
      using r pr by (simp add: c2 ps2 p2)
    moreover have "log_box s3 = log_box s2 @
            (if RUNNING_WITH_MPI (mpi_size e) \<and> recv e (recvs s) = None
             then [LogRecvError] else [])"
      using r True by (cases "recv e (recvs s)") (simp_all add: c2)
    ultimately show ?thesis using True r s' rem by (auto simp add: slice_stopped_def c2)
  next
    case False
    obtain rem s3 where ex: "simulate_process e c pr run s2 = (rem, s3)"
      by (cases "simulate_process e c pr run s2")
    from d False ex have s': "s' = G rem s3" by (simp add: dd)
    note r = simulate_process_result[OF len2 ex]
    have rem: "rem = slice_remaining e pr s"
      using r False
      by (simp add: slice_remaining_def Let_def p_def[symmetric] run_def[symmetric] c2 p2 ul2
            split: if_splits)
    have stp: "slice_stopped e pr s = fst (unit_loop e (nat run) s)"
      using False by (simp add: slice_stopped_def p_def run_def)
    have "processes s3 = (processes s)[pr := p\<lparr>start_time := st,
             execution_history := (if slice_stopped e pr s then execution_history p
                else execution_history p @ [(c, clock s, clock s + run)])\<rparr>]"
      using r pr by (cases "fst (unit_loop e (nat run) s)") (simp_all add: c2 ps2 p2 ul2 stp)
    moreover have "log_box s3 = log_box s2 @
            (if RUNNING_WITH_MPI (mpi_size e) \<and> recv e (recvs s) = None
             then [LogRecvError] else [])"
      using r False by simp
    ultimately show ?thesis using r s' rem by (auto simp add: c2)
  qed
  then obtain s3 where s': "s' = G (slice_remaining e pr s) s3" and c3: "clock s3 = clock s"
    and q3: "queue_proc s3 = queue_proc s"
    and l3: "log_box s3 = log_box s2 @
            (if RUNNING_WITH_MPI (mpi_size e) \<and> recv e (recvs s) = None
             then [LogRecvError] else [])"
    and p3: "processes s3 = (processes s)[pr := p\<lparr>start_time := st,
             execution_history := (if slice_stopped e pr s then execution_history p
                else execution_history p @ [(c, clock s, clock s + run)])\<rparr>]"
    by blast
  have A: "clock s' = clock s + run_length e (processes s ! pr)"
    by (simp add: s' Gc c3 run_def p_def)
  have B: "queue_proc s' = (if 0 < slice_remaining e pr s \<and> algo_var e = ''Round Robin''
        then queue_proc s @ [pr] else queue_proc s)"
    by (simp add: s' Gq q3)
  have C: "processes s' = (processes s)[pr := p
        \<lparr>start_time := st,
         execution_history :=
           (if slice_stopped e pr s then execution_history p
            else execution_history p @ [(c, clock s, clock s + run)]),
         remaining := slice_remaining e pr s,
         end_time := (if slice_remaining e pr s = 0 then Some (clock s + run) else end_time p)\<rparr>]"
    using pr by (simp add: s' Gp p3 c3)
  have D: "log_box s' = log_box s @ [LogDispatch c (pid p) (remaining p) run] @
       (if RUNNING_WITH_MPI (mpi_size e) \<and> recv e (recvs s) = None
        then [LogRecvError] else []) @
       (if 0 < slice_remaining e pr s
        then (if algo_var e = ''Round Robin''
              then [LogRequeued (pid p) (slice_remaining e pr s)] else [])
        else [LogCompleted (pid p)])"
    by (simp add: s' Gl l3 l2)
  show ?thesis using A B C D by (simp add: p_def run_def st_def)
qed

lemma dispatch_proc:
  assumes pr: "pr < length (processes s)" and d: "dispatch e c pr s = Inr s'"
  shows "remaining (processes s' ! pr) = slice_remaining e pr s"
    and "burst (processes s' ! pr) = burst (processes s ! pr)"
    and "pid (processes s' ! pr) = pid (processes s ! pr)"
    and "arrival (processes s' ! pr) = arrival (processes s ! pr)"
    and "end_time (processes s' ! pr) =
           (if slice_remaining e pr s = 0
            then Some (clock s + run_length e (processes s ! pr))
            else end_time (processes s ! pr))"
    and "start_time (processes s' ! pr) =
           (if start_time (processes s ! pr) = None then Some (clock s)
            else start_time (processes s ! pr))"
    and "execution_history (processes s' ! pr) =
           (if slice_stopped e pr s then execution_history (processes s ! pr)
            else execution_history (processes s ! pr) @
                   [(c, clock s, clock s + run_length e (processes s ! pr))])"
    and "length (processes s') = length (processes s)"
    and "i \<noteq> pr \<Longrightarrow> processes s' ! i = processes s ! i"
proof -
  obtain X where X: "processes s' = (processes s)[pr := X]"
    and Xdef: "X = (processes s ! pr)
        \<lparr>start_time := (if start_time (processes s ! pr) = None then Some (clock s)
                        else start_time (processes s ! pr)),
         execution_history :=
           (if slice_stopped e pr s then execution_history (processes s ! pr)
            else execution_history (processes s ! pr) @
                   [(c, clock s, clock s + run_length e (processes s ! pr))]),
         remaining := slice_remaining e pr s,
         end_time := (if slice_remaining e pr s = 0
                      then Some (clock s + run_length e (processes s ! pr))
                      else end_time (processes s ! pr))\<rparr>"
    using dispatch_result[OF pr d] by blast
  have nth: "processes s' ! pr = X" using pr by (simp add: X)
  show "remaining (processes s' ! pr) = slice_remaining e pr s" by (simp add: nth Xdef)
  show "burst (processes s' ! pr) = burst (processes s ! pr)" by (simp add: nth Xdef)
  show "pid (processes s' ! pr) = pid (processes s ! pr)" by (simp add: nth Xdef)
  show "arrival (processes s' ! pr) = arrival (processes s ! pr)" by (simp add: nth Xdef)
  show "end_time (processes s' ! pr) =
           (if slice_remaining e pr s = 0
            then Some (clock s + run_length e (processes s ! pr))
            else end_time (processes s ! pr))" by (simp add: nth Xdef)
  show "start_time (processes s' ! pr) =
           (if start_time (processes s ! pr) = None then Some (clock s)
            else start_time (processes s ! pr))" by (simp add: nth Xdef)
  show "execution_history (processes s' ! pr) =
           (if slice_stopped e pr s then execution_history (processes s ! pr)
            else execution_history (processes s ! pr) @
                   [(c, clock s, clock s + run_length e (processes s ! pr))])"
    by (simp add: nth Xdef)
  show "length (processes s') = length (processes s)" by (simp add: X)
  show "i \<noteq> pr \<Longrightarrow> processes s' ! i = processes s ! i" by (simp add: X)
qed

lemma dispatch_state:
  assumes pr: "pr < length (processes s)" and d: "dispatch e c pr s = Inr s'"
  shows "clock s' = clock s + run_length e (processes s ! pr)"
    and "queue_proc s' =
       (if 0 < slice_remaining e pr s \<and> algo_var e = ''Round Robin''
        then queue_proc s @ [pr] else queue_proc s)"
    and "log_box s' = log_box s @
       [LogDispatch c (pid (processes s ! pr)) (remaining (processes s ! pr))
          (run_length e (processes s ! pr))] @
       (if RUNNING_WITH_MPI (mpi_size e) \<and> recv e (recvs s) = None
        then [LogRecvError] else []) @
       (if 0 < slice_remaining e pr s
        then (if algo_var e = ''Round Robin''
              then [LogRequeued (pid (processes s ! pr)) (slice_remaining e pr s)] else [])
        else [LogCompleted (pid (processes s ! pr))])"
  using dispatch_result[OF pr d] by blast+

lemma dispatch_Inr:
  assumes "\<not> RUNNING_WITH_MPI (mpi_size e) \<or> 0 \<le> run_length e (processes s ! pr)"
  shows "\<exists>s'. dispatch e c pr s = Inr s'"
proof (cases "RUNNING_WITH_MPI (mpi_size e)")
  case True
  with assms have r: "0 \<le> run_length e (processes s ! pr)" by simp
  define s2 where "s2 = log (LogDispatch c (pid (processes s ! pr)) (remaining (processes s ! pr))
           (run_length e (processes s ! pr)))
          (if start_time (processes s ! pr) = None
                then update_proc pr (\<lambda>p. p\<lparr>start_time := Some (clock s)\<rparr>) s else s)"
  obtain rem s3 where "mpi_execute e c pr (run_length e (processes s ! pr)) s2 = Inr (rem, s3)"
    using mpi_execute_Inr[OF r] by blast
  then show ?thesis
    using True by (simp add: dispatch_def Let_def s2_def[symmetric])
next
  case False
  then show ?thesis
    unfolding dispatch_def Let_def by (simp add: split_beta)
qed

section \<open>Scheduling policies\<close>

text \<open>
  Claim C2. Under Round Robin, the dispatch of the process \<open>pr\<close> at the head of the ready
  queue selects the run length \<open>min TIME_QUANTUM remaining\<close>: never more than the quantum,
  and exactly \<open>remaining\<close> when that is below the quantum. The clock advances by that
  length and the log line of the dispatch carries it. When the process has work left
  after the slice it is appended to the back of the queue, otherwise the queue is what
  the pop left.
\<close>

theorem round_robin_dispatch:
  assumes rr: "algo_var e = ''Round Robin''"
    and q: "queue_proc s = pr # q"
    and pr: "pr < length (processes s)"
    and d: "dispatch e c pr (s\<lparr>queue_proc := q\<rparr>) = Inr s'"
  shows "run_length e (processes s ! pr) = min TIME_QUANTUM (remaining (processes s ! pr)) \<and>
     run_length e (processes s ! pr) \<le> TIME_QUANTUM \<and>
     (remaining (processes s ! pr) < TIME_QUANTUM \<longrightarrow>
        run_length e (processes s ! pr) = remaining (processes s ! pr)) \<and>
     clock s' = clock s + run_length e (processes s ! pr) \<and>
     LogDispatch c (pid (processes s ! pr)) (remaining (processes s ! pr))
        (run_length e (processes s ! pr)) \<in> set (log_box s') \<and>
     (0 < remaining (processes s' ! pr) \<longrightarrow> queue_proc s' = q @ [pr]) \<and>
     (remaining (processes s' ! pr) \<le> 0 \<longrightarrow> queue_proc s' = q)"
proof -
  let ?s = "s\<lparr>queue_proc := q\<rparr>"
  have pr': "pr < length (processes ?s)" using pr by simp
  have A: "run_length e (processes s ! pr) = min TIME_QUANTUM (remaining (processes s ! pr))"
    using rr by (simp add: run_length_def)
  have B: "clock s' = clock s + run_length e (processes s ! pr)"
    using dispatch_state(1)[OF pr' d] by simp
  have C: "LogDispatch c (pid (processes s ! pr)) (remaining (processes s ! pr))
        (run_length e (processes s ! pr)) \<in> set (log_box s')"
    using dispatch_state(3)[OF pr' d] by simp
  have D: "queue_proc s' = (if 0 < remaining (processes s' ! pr) then q @ [pr] else q)"
    using dispatch_state(2)[OF pr' d] rr by (simp add: dispatch_proc(1)[OF pr' d])
  show ?thesis using A B C D by simp
qed

theorem round_robin_dispatch_witness:
  "algo_var env_local_rr = ''Round Robin'' \<and>
   queue_proc (first_state env_local_rr) = [0, 1, 2, 3, 4, 5] \<and>
   run_length env_local_rr (processes (first_state env_local_rr) ! 0) = 2 \<and>
   clock (projr (dispatch env_local_rr 1 0
            ((first_state env_local_rr)\<lparr>queue_proc := [1, 2, 3, 4, 5]\<rparr>))) = 2 \<and>
   remaining (processes (projr (dispatch env_local_rr 1 0
            ((first_state env_local_rr)\<lparr>queue_proc := [1, 2, 3, 4, 5]\<rparr>))) ! 0) = 2 \<and>
   queue_proc (projr (dispatch env_local_rr 1 0
            ((first_state env_local_rr)\<lparr>queue_proc := [1, 2, 3, 4, 5]\<rparr>)))
     = [1, 2, 3, 4, 5, 0]"
proof -
  let ?s = "first_state env_local_rr"
  let ?s' = "projr (dispatch env_local_rr 1 0 (?s\<lparr>queue_proc := [1, 2, 3, 4, 5]\<rparr>))"
  have h1: "algo_var env_local_rr = ''Round Robin''" by (simp add: env_local_rr_def)
  have h2: "queue_proc ?s = 0 # [1, 2, 3, 4, 5]" by code_simp
  have h3: "0 < length (processes ?s)" by code_simp
  have h4: "dispatch env_local_rr 1 0 (?s\<lparr>queue_proc := [1, 2, 3, 4, 5]\<rparr>) = Inr ?s'"
    by code_simp
  have v: "remaining (processes ?s ! 0) = 4" "clock ?s = 0" "remaining (processes ?s' ! 0) = 2"
    by code_simp+
  show ?thesis
    using round_robin_dispatch [OF h1 h2 h3 h4] h1 h2 v by (simp add: TIME_QUANTUM_def)
qed

section \<open>A receive that fails\<close>

text \<open>
  Claim C4. Under MPI, when the receive of a dispatch fails, the dispatch still returns:
  it writes the failure to the log right after the line of the dispatch, sets the
  remaining time of the process to \<open>max 0 (remaining - run)\<close>, and the loop over the
  CPUs goes on with the next CPU from the state the dispatch leaves.
\<close>

theorem recv_failure_falls_back:
  assumes mpi: "RUNNING_WITH_MPI (mpi_size e)"
    and fail: "recv e (recvs s) = None"
    and q: "queue_proc s = pr # q"
    and pr: "pr < length (processes s)"
    and nn: "0 \<le> remaining (processes s ! pr)"
    and ns: "\<not> fst (is_set e s)"
  shows "\<exists>s'. dispatch e c pr ((snd (is_set e s))\<lparr>queue_proc := q\<rparr>) = Inr s' \<and>
     cpu_loop e (c # rest) s = cpu_loop e rest s' \<and>
     remaining (processes s' ! pr) =
       max 0 (remaining (processes s ! pr) - run_length e (processes s ! pr)) \<and>
     (\<exists>tl. log_box s' = log_box s @
        [LogDispatch c (pid (processes s ! pr)) (remaining (processes s ! pr))
           (run_length e (processes s ! pr)), LogRecvError] @ tl)"
proof -
  let ?s = "(snd (is_set e s))\<lparr>queue_proc := q\<rparr>"
  have ps: "processes ?s = processes s" "recvs ?s = recvs s" "clock ?s = clock s"
    "log_box ?s = log_box s"
    by (simp_all add: is_set_fields)
  have pr': "pr < length (processes ?s)" using pr by (simp add: ps)
  have run: "0 \<le> run_length e (processes ?s ! pr)"
    using nn by (simp add: ps run_length_def TIME_QUANTUM_def)
  then obtain s' where d: "dispatch e c pr ?s = Inr s'"
    using dispatch_Inr[of e ?s pr c] by blast
  have sr: "slice_remaining e pr ?s =
      max 0 (remaining (processes s ! pr) - run_length e (processes s ! pr))"
    using mpi fail by (simp add: slice_remaining_def Let_def ps)
  have A: "remaining (processes s' ! pr) =
       max 0 (remaining (processes s ! pr) - run_length e (processes s ! pr))"
    by (simp add: dispatch_proc(1)[OF pr' d] sr)
  have B: "\<exists>tl. log_box s' = log_box s @
        [LogDispatch c (pid (processes s ! pr)) (remaining (processes s ! pr))
           (run_length e (processes s ! pr)), LogRecvError] @ tl"
    using dispatch_state(3)[OF pr' d] mpi fail by (simp add: ps)
  have C: "cpu_loop e (c # rest) s = cpu_loop e rest s'"
    using q ns d by (simp add: split_beta)
  show ?thesis using d A B C by blast
qed

theorem recv_failure_falls_back_witness:
  "RUNNING_WITH_MPI (mpi_size env_mpi_down) \<and>
   recv env_mpi_down (recvs (first_state env_mpi_down)) = None \<and>
   (\<exists>s'. dispatch env_mpi_down 1 0
            ((snd (is_set env_mpi_down (first_state env_mpi_down)))
               \<lparr>queue_proc := [1, 2, 3, 4, 5]\<rparr>) = Inr s' \<and>
         cpu_loop env_mpi_down [1, 2, 3] (first_state env_mpi_down)
           = cpu_loop env_mpi_down [2, 3] s' \<and>
         remaining (processes s' ! 0) = 2) \<and>
   queue_proc (final_state env_mpi_down) = [] \<and>
   map remaining (processes (final_state env_mpi_down)) = [0, 0, 0, 0, 0, 0] \<and>
   count_list (log_box (final_state env_mpi_down)) LogRecvError = 12"
proof -
  let ?e = "env_mpi_down"
  let ?s = "first_state env_mpi_down"
  have h1: "RUNNING_WITH_MPI (mpi_size ?e)" by code_simp
  have h2: "recv ?e (recvs ?s) = None" by code_simp
  have h3: "queue_proc ?s = 0 # [1, 2, 3, 4, 5]" by code_simp
  have h4: "0 < length (processes ?s)" by code_simp
  have h5: "0 \<le> remaining (processes ?s ! 0)" by code_simp
  have h6: "\<not> fst (is_set ?e ?s)" by code_simp
  have v: "remaining (processes ?s ! 0) = 4" "run_length ?e (processes ?s ! 0) = 2"
    by code_simp+
  have run: "queue_proc (final_state ?e) = [] \<and>
     map remaining (processes (final_state ?e)) = [0, 0, 0, 0, 0, 0] \<and>
     count_list (log_box (final_state ?e)) LogRecvError = 12"
    by code_simp
  from recv_failure_falls_back [OF h1 h2 h3 h4 h5 h6, of 1 "[2, 3]"]
  obtain s' where
    "dispatch ?e 1 0 ((snd (is_set ?e ?s))\<lparr>queue_proc := [1, 2, 3, 4, 5]\<rparr>) = Inr s'"
    "cpu_loop ?e [1, 2, 3] ?s = cpu_loop ?e [2, 3] s'"
    "remaining (processes s' ! 0) = 2"
    by (auto simp add: v)
  then show ?thesis using h1 h2 run by blast
qed

section \<open>Worker: the reply to every request\<close>

lemma worker_step_STOP: "worker_step (STOP, b) = Inr None"
  by (simp add: worker_step_def)

lemma worker_step_run:
  "0 \<le> b \<Longrightarrow> worker_step (ProcId p, b) = Inr (Some (max 0 (b - TIME_QUANTUM)))"
  by (simp add: worker_step_def)

text \<open>
  Claim C5. The worker answers the requests in the order they arrive, each with
  \<open>max 0 (b - TIME_QUANTUM)\<close> for the run length \<open>b\<close> it received, up to the first request
  that carries the sentinel; that request and everything after it get no reply, and the
  loop has ended exactly when a sentinel was among the requests. The worker sees nothing
  of the controller's algorithm, so the decrement is the fixed quantum under both
  policies. The run lengths are the non-negative ones a controller sends
  (\<^verbatim>\<open>time.sleep\<close> rejects a negative length).
\<close>

theorem worker_loop_replies:
  assumes "\<forall>rq \<in> set rqs. 0 \<le> snd rq"
  shows "worker_loop rqs =
     (map (\<lambda>rq. max 0 (snd rq - TIME_QUANTUM)) (takeWhile (\<lambda>rq. fst rq \<noteq> STOP) rqs),
      if (\<exists>rq \<in> set rqs. fst rq = STOP) then Stopped else WaitingForWork)"
  using assms
proof (induction rqs)
  case Nil
  show ?case by simp
next
  case (Cons rq rqs)
  obtain p b where rq: "rq = (p, b)" by (cases rq)
  from Cons.prems rq have b: "0 \<le> b" by simp
  from Cons have ih: "worker_loop rqs =
     (map (\<lambda>rq. max 0 (snd rq - TIME_QUANTUM)) (takeWhile (\<lambda>rq. fst rq \<noteq> STOP) rqs),
      if (\<exists>rq \<in> set rqs. fst rq = STOP) then Stopped else WaitingForWork)" by simp
  show ?case
  proof (cases "p = STOP")
    case True
    then show ?thesis by (simp add: rq worker_step_def)
  next
    case False
    with b show ?thesis by (simp add: rq worker_step_def ih)
  qed
qed

theorem worker_loop_replies_witness:
  "worker_loop [(ProcId 1, 2), (ProcId 2, 5), (STOP, 0), (ProcId 3, 4)] = ([0, 3], Stopped)"
  using worker_loop_replies [of "[(ProcId 1, 2), (ProcId 2, 5), (STOP, 0), (ProcId 3, 4)]"]
  by (simp add: TIME_QUANTUM_def)

section \<open>The processes of a run\<close>

lemma fold_log_fields:
  "processes (fold (\<lambda>p. log (f p)) ps s) = processes s \<and>
   queue_proc (fold (\<lambda>p. log (f p)) ps s) = queue_proc s \<and>
   clock (fold (\<lambda>p. log (f p)) ps s) = clock s"
  by (induction ps arbitrary: s) (simp_all add: log_def)

lemma processes_init_run: "processes (init_run e s) = generate_processes e"
  by (simp add: init_run_def Let_def fold_log_fields log_def)

lemma clock_init_run: "clock (init_run e s) = 0"
  by (simp add: init_run_def Let_def fold_log_fields log_def)

lemma length_generate: "length (generate_processes e) = 6"
  by (simp add: generate_processes_def)

lemma nth_generate:
  "i < 6 \<Longrightarrow>
   generate_processes e ! i = Process (int i + 1) (randint 4 10 (entropy e i)) (int i)"
  unfolding generate_processes_def by (simp del: upt_Suc)

lemma randint_bounds: "a \<le> b \<Longrightarrow> a \<le> randint a b r \<and> randint a b r \<le> b"
proof -
  assume ab: "a \<le> b"
  then have pos: "0 < nat (b - a + 1)" by simp
  have "r mod nat (b - a + 1) < nat (b - a + 1)" using pos by (rule mod_less_divisor)
  then have "int (r mod nat (b - a + 1)) < int (nat (b - a + 1))"
    by (simp only: of_nat_less_iff)
  then have "int (r mod nat (b - a + 1)) < b - a + 1" using ab by simp
  then show ?thesis by (simp add: randint_def)
qed

lemma arrivals_generate: "map arrival (generate_processes e) = map int [0..<6]"
  by (simp add: generate_processes_def Process_def comp_def del: upt_Suc)

lemma sorted_arrivals_generate:
  "sorted (map (\<lambda>r. arrival (generate_processes e ! r)) [0..<6])"
proof -
  have eq: "map (\<lambda>r. arrival (generate_processes e ! r)) [0..<6] = map int [0..<6]"
    by (rule map_cong[OF refl], simp only: set_upt atLeastLessThan_iff)
       (simp add: nth_generate Process_def)
  have srt: "sorted (map int [0..<6])"
    by (simp add: sorted_map strict_sorted_iff sorted_wrt_map)
  show ?thesis unfolding eq by (rule srt)
qed

lemma sorted_by_arrival_generate:
  "sorted_by_arrival (generate_processes e) [0..<6] = [0..<6]"
  unfolding sorted_by_arrival_def
  by (rule sort_key_id_if_sorted) (rule sorted_arrivals_generate)

lemma queue_init_run: "queue_proc (init_run e s) = [0..<6]"
  by (simp add: init_run_def Let_def fold_log_fields log_def length_generate
        sorted_by_arrival_generate del: upt_Suc)

text \<open>
  Claim C10. Whatever the random source and the state before, a run starts with exactly
  six processes; the one at position \<open>i\<close> has pid \<open>i + 1\<close>, arrival \<open>i\<close> and a burst
  between 4 and 10 (so at least 4), with \<open>remaining\<close> equal to the burst. The arrival
  times are pairwise distinct, and the initial ready queue holds the six processes in
  creation order, which is sorted by arrival.
\<close>

theorem generated_processes:
  "length (processes (init_run e s)) = 6 \<and>
   (\<forall>i<6. pid (processes (init_run e s) ! i) = int i + 1 \<and>
           arrival (processes (init_run e s) ! i) = int i \<and>
           4 \<le> burst (processes (init_run e s) ! i) \<and>
           burst (processes (init_run e s) ! i) \<le> 10 \<and>
           remaining (processes (init_run e s) ! i) = burst (processes (init_run e s) ! i)) \<and>
   distinct (map arrival (processes (init_run e s))) \<and>
   queue_proc (init_run e s) = [0..<6] \<and>
   sorted (map (\<lambda>r. arrival (processes (init_run e s) ! r)) (queue_proc (init_run e s)))"
proof -
  have b: "\<And>i. 4 \<le> randint 4 10 (entropy e i) \<and> randint 4 10 (entropy e i) \<le> 10"
    by (rule randint_bounds) simp
  have 1: "\<forall>i<6. pid (generate_processes e ! i) = int i + 1 \<and>
           arrival (generate_processes e ! i) = int i \<and>
           4 \<le> burst (generate_processes e ! i) \<and>
           burst (generate_processes e ! i) \<le> 10 \<and>
           remaining (generate_processes e ! i) = burst (generate_processes e ! i)"
    using b by (simp add: nth_generate Process_def)
  have 2: "distinct (map arrival (generate_processes e))"
    by (simp add: arrivals_generate distinct_map del: upt_Suc)
  show ?thesis
    using 1 2 sorted_arrivals_generate [of e]
    by (simp only: processes_init_run queue_init_run length_generate)
qed

theorem generated_processes_witness:
  "length (processes (init_run (env_local_rr\<lparr>entropy := (\<lambda>i. 3 * i + 5)\<rparr>) initial_state)) = 6 \<and>
   pid (processes (init_run (env_local_rr\<lparr>entropy := (\<lambda>i. 3 * i + 5)\<rparr>) initial_state) ! 3) = 4 \<and>
   arrival (processes (init_run (env_local_rr\<lparr>entropy := (\<lambda>i. 3 * i + 5)\<rparr>) initial_state) ! 3) = 3 \<and>
   4 \<le> burst (processes (init_run (env_local_rr\<lparr>entropy := (\<lambda>i. 3 * i + 5)\<rparr>) initial_state) ! 3) \<and>
   burst (processes (init_run (env_local_rr\<lparr>entropy := (\<lambda>i. 3 * i + 5)\<rparr>) initial_state) ! 3) \<le> 10 \<and>
   map burst (processes (init_run (env_local_rr\<lparr>entropy := (\<lambda>i. 3 * i + 5)\<rparr>) initial_state))
     = [9, 5, 8, 4, 7, 10]"
  using generated_processes [of "env_local_rr\<lparr>entropy := (\<lambda>i. 3 * i + 5)\<rparr>" initial_state]
  by (simp add: processes_init_run generate_processes_def Process_def randint_def
        env_local_rr_def upt_rec [of 0] upt_rec [of "Suc _"])

section \<open>Completion statistics\<close>

lemma completed_processes_set:
  "set (completed_processes ps) = {p \<in> set ps. end_time p \<noteq> None}"
  by (auto simp add: completed_processes_def)

text \<open>
  Claim C7. The statistics range over exactly the processes whose end time is set. When
  there is none, nothing is computed and nothing is logged (no division takes place).
  Otherwise the two values reported are the arithmetic means, over the completed
  processes, of the turnaround \<open>end_time - arrival\<close> and of the waiting time
  \<open>turnaround - burst\<close>: each mean times the number of completed processes is the sum.
\<close>

theorem completion_stats_means:
  "set (completed_processes (processes s)) = {p \<in> set (processes s). end_time p \<noteq> None} \<and>
   (if completed_processes (processes s) = []
    then completion_stats (processes s) = None \<and> show_completion_stats s = s
    else \<exists>avg_t avg_w.
           completion_stats (processes s) = Some (avg_t, avg_w) \<and>
           avg_t * of_nat (length (completed_processes (processes s))) =
             of_int (\<Sum>p\<leftarrow>completed_processes (processes s). the (end_time p) - arrival p) \<and>
           avg_w * of_nat (length (completed_processes (processes s))) =
             of_int (\<Sum>p\<leftarrow>completed_processes (processes s).
                        (the (end_time p) - arrival p) - burst p) \<and>
           log_box (show_completion_stats s) =
             log_box s @ [LogStatistics, LogAvgTurnaround avg_t, LogAvgWaiting avg_w])"
proof (cases "completed_processes (processes s) = []")
  case True
  have "completion_stats (processes s) = None"
    using True by (simp add: completion_stats_def)
  moreover from this have "show_completion_stats s = s"
    by (simp add: show_completion_stats_def)
  ultimately have "if completed_processes (processes s) = []
    then completion_stats (processes s) = None \<and> show_completion_stats s = s
    else \<exists>avg_t avg_w.
           completion_stats (processes s) = Some (avg_t, avg_w) \<and>
           avg_t * of_nat (length (completed_processes (processes s))) =
             of_int (\<Sum>p\<leftarrow>completed_processes (processes s). the (end_time p) - arrival p) \<and>
           avg_w * of_nat (length (completed_processes (processes s))) =
             of_int (\<Sum>p\<leftarrow>completed_processes (processes s).
                        (the (end_time p) - arrival p) - burst p) \<and>
           log_box (show_completion_stats s) =
             log_box s @ [LogStatistics, LogAvgTurnaround avg_t, LogAvgWaiting avg_w]"
    using True by (simp only: if_True simp_thms)
  then show ?thesis using completed_processes_set [of "processes s"] by (rule conjI [rotated])
next
  case False
  define cp where "cp = completed_processes (processes s)"
  define n :: rat where "n = of_nat (length cp)"
  have n: "n \<noteq> 0" using False by (simp add: n_def cp_def)
  define tt :: rat where "tt = of_int (\<Sum>p\<leftarrow>cp. the (end_time p) - arrival p)"
  define tw :: rat where "tw = of_int (\<Sum>p\<leftarrow>cp. the (end_time p) - arrival p - burst p)"
  have cs: "completion_stats (processes s) = Some (tt / n, tw / n)"
    using False
    by (simp only: completion_stats_def Let_def tt_def tw_def n_def cp_def if_False
          of_int_of_nat_eq)
  have t: "tt / n * n = tt" using n by simp
  have w: "tw / n * n = tw" using n by simp
  have l: "log_box (show_completion_stats s) =
             log_box s @ [LogStatistics, LogAvgTurnaround (tt / n), LogAvgWaiting (tw / n)]"
    by (simp add: show_completion_stats_def cs)
  have E: "\<exists>avg_t avg_w.
           completion_stats (processes s) = Some (avg_t, avg_w) \<and>
           avg_t * n = tt \<and> avg_w * n = tw \<and>
           log_box (show_completion_stats s) =
             log_box s @ [LogStatistics, LogAvgTurnaround avg_t, LogAvgWaiting avg_w]"
    using cs t w l by blast
  have "if completed_processes (processes s) = []
    then completion_stats (processes s) = None \<and> show_completion_stats s = s
    else \<exists>avg_t avg_w.
           completion_stats (processes s) = Some (avg_t, avg_w) \<and>
           avg_t * of_nat (length (completed_processes (processes s))) =
             of_int (\<Sum>p\<leftarrow>completed_processes (processes s). the (end_time p) - arrival p) \<and>
           avg_w * of_nat (length (completed_processes (processes s))) =
             of_int (\<Sum>p\<leftarrow>completed_processes (processes s).
                        (the (end_time p) - arrival p) - burst p) \<and>
           log_box (show_completion_stats s) =
             log_box s @ [LogStatistics, LogAvgTurnaround avg_t, LogAvgWaiting avg_w]"
    using False E
    by (simp only: if_False simp_thms n_def tt_def tw_def cp_def)
  then show ?thesis using completed_processes_set [of "processes s"] by (rule conjI [rotated])
qed


theorem completion_stats_means_witness:
  "completion_stats
     [(Process 1 4 0)\<lparr>remaining := 0, end_time := Some 4\<rparr>,
      (Process 2 6 1)\<lparr>remaining := 0, end_time := Some 10\<rparr>,
      Process 3 5 2] = Some (13 / 2, 3 / 2)"
proof -
  let ?ps = "[(Process 1 4 0)\<lparr>remaining := 0, end_time := Some 4\<rparr>,
      (Process 2 6 1)\<lparr>remaining := 0, end_time := Some 10\<rparr>,
      Process 3 5 2]"
  let ?s = "initial_state\<lparr>processes := ?ps\<rparr>"
  have pp: "processes ?s = ?ps" by simp
  have cp: "completed_processes ?ps =
      [(Process 1 4 0)\<lparr>remaining := 0, end_time := Some 4\<rparr>,
       (Process 2 6 1)\<lparr>remaining := 0, end_time := Some 10\<rparr>]"
    by (simp add: completed_processes_def Process_def)
  have ne: "completed_processes (processes ?s) \<noteq> []" by (simp only: pp cp) simp
  have len: "length (completed_processes (processes ?s)) = 2" by (simp only: pp cp) simp
  have st: "(\<Sum>p\<leftarrow>completed_processes (processes ?s). the (end_time p) - arrival p) = 13"
    by (simp only: pp cp) (simp add: Process_def)
  have sw: "(\<Sum>p\<leftarrow>completed_processes (processes ?s). the (end_time p) - arrival p - burst p) = 3"
    by (simp only: pp cp) (simp add: Process_def)
  from completion_stats_means [of ?s] ne
  have "\<exists>avg_t avg_w.
           completion_stats (processes ?s) = Some (avg_t, avg_w) \<and>
           avg_t * of_nat (length (completed_processes (processes ?s))) =
             of_int (\<Sum>p\<leftarrow>completed_processes (processes ?s). the (end_time p) - arrival p) \<and>
           avg_w * of_nat (length (completed_processes (processes ?s))) =
             of_int (\<Sum>p\<leftarrow>completed_processes (processes ?s).
                        (the (end_time p) - arrival p) - burst p) \<and>
           log_box (show_completion_stats ?s) =
             log_box ?s @ [LogStatistics, LogAvgTurnaround avg_t, LogAvgWaiting avg_w]"
    by (simp only: if_False simp_thms)
  then obtain avg_t avg_w :: rat
    where c: "completion_stats (processes ?s) = Some (avg_t, avg_w)"
      and t: "avg_t * of_nat (length (completed_processes (processes ?s))) =
             of_int (\<Sum>p\<leftarrow>completed_processes (processes ?s). the (end_time p) - arrival p)"
      and w: "avg_w * of_nat (length (completed_processes (processes ?s))) =
             of_int (\<Sum>p\<leftarrow>completed_processes (processes ?s).
                        (the (end_time p) - arrival p) - burst p)"
    by blast
  from t have "avg_t * 2 = 13" by (simp only: len st)
  then have a: "avg_t = 13 / 2" by (simp add: field_simps)
  from w have "avg_w * 2 = 3" by (simp only: len sw)
  then have b: "avg_w = 3 / 2" by (simp add: field_simps)
  from c show ?thesis by (simp only: pp a b)
qed

section \<open>Reset\<close>

text \<open>
  Claim C9, as the code has it. \<^verbatim>\<open>reset\<close> sets both events, puts the clock back to 0 and
  empties \<^verbatim>\<open>simulation_history\<close>. It leaves \<^verbatim>\<open>self.processes\<close>, the ready queue and the
  execution history of every process as the run left them; they are replaced when the
  next run starts, which generates the six processes, the queue and the clock anew
  whatever the state before.
\<close>

theorem reset_effect:
  "clock (reset s) = 0 \<and> simulation_history (reset s) = [] \<and>
   stop_event (reset s) \<and> pause_event (reset s) \<and>
   processes (reset s) = processes s \<and> queue_proc (reset s) = queue_proc s \<and>
   processes (init_run e (reset s)) = generate_processes e \<and>
   queue_proc (init_run e (reset s)) = [0..<6] \<and>
   clock (init_run e (reset s)) = 0"
  by (simp add: reset_def log_def processes_init_run queue_init_run clock_init_run del: upt_Suc)

text \<open>
  The claim as stated fails: a Round Robin run stopped after its first slice and then
  reset still has its six processes, a queue of six entries and the interval recorded
  for the first process.
\<close>

theorem reset_keeps_processes_counterexample:
  "start env_stop_between 20 initial_state = Some (Inr (final_state env_stop_between)) \<and>
   stop_event (final_state env_stop_between) \<and>
   clock (final_state env_stop_between) = 2 \<and>
   clock (reset (final_state env_stop_between)) = 0 \<and>
   length (processes (reset (final_state env_stop_between))) = 6 \<and>
   queue_proc (reset (final_state env_stop_between)) = [1, 2, 3, 4, 5, 0] \<and>
   execution_history (processes (reset (final_state env_stop_between)) ! 0) = [(1, 0, 2)]"
  by code_simp

section \<open>The bookkeeping of a process\<close>

text \<open>
  A dispatch whose result is \<open>max 0 (remaining - run)\<close> with the interval recorded keeps
  the bookkeeping of the process right: that is the local backend when the slice is
  not cut short by the stop flag, and the fallback under MPI.
\<close>

lemma executed_append:
  "executed (p\<lparr>execution_history := execution_history p @ [(c, t0, t1)]\<rparr>) = executed p + (t1 - t0)"
  by (simp add: executed_def)

lemma run_length_le: "0 \<le> remaining p \<Longrightarrow> 0 \<le> run_length e p \<and> run_length e p \<le> remaining p"
  by (simp add: run_length_def TIME_QUANTUM_def)

lemma dispatch_keeps_accounted:
  assumes pr: "pr < length (processes s)" and d: "dispatch e c pr s = Inr s'"
    and acc: "accounted (processes s ! pr)"
    and ns: "\<not> slice_stopped e pr s"
    and fb: "RUNNING_WITH_MPI (mpi_size e) \<Longrightarrow> recv e (recvs s) = None"
  shows "accounted (processes s' ! pr)"
proof -
  let ?p = "processes s ! pr" and ?p' = "processes s' ! pr"
  let ?run = "run_length e ?p"
  from acc have nn: "0 \<le> remaining ?p" and b: "remaining ?p = burst ?p - executed ?p"
    and en: "(end_time ?p \<noteq> None) = (remaining ?p = 0)"
    by (simp_all add: accounted_def)
  note rl = run_length_le[OF nn, of e]
  have ul: "\<not> RUNNING_WITH_MPI (mpi_size e) \<Longrightarrow> \<not> fst (unit_loop e (nat ?run) s)"
    using ns by (simp add: slice_stopped_def)
  have sr: "slice_remaining e pr s = remaining ?p - ?run"
    using fb ul rl by (cases "RUNNING_WITH_MPI (mpi_size e)") (simp_all add: slice_remaining_def Let_def)
  have r': "remaining ?p' = remaining ?p - ?run"
    by (simp add: dispatch_proc(1)[OF pr d] sr)
  have ex: "executed ?p' = executed ?p + ?run"
    using ns by (simp add: executed_def dispatch_proc(7)[OF pr d])
  have e': "end_time ?p' = (if remaining ?p - ?run = 0 then Some (clock s + ?run) else end_time ?p)"
    by (simp add: dispatch_proc(5)[OF pr d] sr)
  have "remaining ?p - ?run \<noteq> 0 \<Longrightarrow> end_time ?p = None"
    using en rl by auto
  then have en': "(end_time ?p' \<noteq> None) = (remaining ?p' = 0)"
    by (auto simp add: e' r')
  show ?thesis
    unfolding accounted_def
    using b rl en' by (simp add: r' ex dispatch_proc(2)[OF pr d])
qed

text \<open>
  Claim C1 at a failing input. In a local Round Robin run stopped during the first unit
  of its first slice, \<^verbatim>\<open>simulate_process\<close> returns 0 without recording the interval and the
  dispatch stores \<open>remaining = 0\<close> with an end time for a process of burst 4 that never
  ran, so \<open>remaining = burst - executed\<close> fails. The second half of the statement is about
  line 581, which stores whatever the receive delivers: were the worker's answer to
  arrive (0 for a request of run length 2), each process of burst 4 would end with
  \<open>remaining = 0\<close> and an end time after a single interval of length 2. The program
  itself never gets that far, since its receive raises on every call and the fallback
  keeps the bookkeeping right.
\<close>

theorem accounting_broken_at_dispatch:
  "start env_stop_first_unit 20 initial_state = Some (Inr (final_state env_stop_first_unit)) \<and>
   burst (processes (final_state env_stop_first_unit) ! 0) = 4 \<and>
   executed (processes (final_state env_stop_first_unit) ! 0) = 0 \<and>
   remaining (processes (final_state env_stop_first_unit) ! 0) = 0 \<and>
   end_time (processes (final_state env_stop_first_unit) ! 0) = Some 2 \<and>
   \<not> accounted (processes (final_state env_stop_first_unit) ! 0) \<and>
   start env_mpi_rr 20 initial_state = Some (Inr (final_state env_mpi_rr)) \<and>
   map (worker_step \<circ> snd) (sent (final_state env_mpi_rr)) = replicate 6 (Inr (Some 0)) \<and>
   map (recv env_mpi_rr) [0, 1, 2, 3, 4, 5] = replicate 6 (Some 0) \<and>
   map burst (processes (final_state env_mpi_rr)) = [4, 4, 4, 4, 4, 4] \<and>
   map executed (processes (final_state env_mpi_rr)) = [2, 2, 2, 2, 2, 2] \<and>
   map remaining (processes (final_state env_mpi_rr)) = [0, 0, 0, 0, 0, 0] \<and>
   map end_time (processes (final_state env_mpi_rr)) =
     [Some 2, Some 4, Some 6, Some 8, Some 10, Some 12] \<and>
   map accounted (processes (final_state env_mpi_rr)) =
     [False, False, False, False, False, False]"
  by code_simp

text \<open>
  Claim C8 at a failing input. A local FCFS run is stopped during the second unit of its
  first slice: \<^verbatim>\<open>simulate_process\<close> leaves through \<^verbatim>\<open>return 0\<close> without recording the
  interval, and the dispatch then stores \<open>remaining = 0\<close> and an end time for a process
  of burst 4 that has no history. The loop does end at once (three more polls of the
  flag, no further dispatch) and no interval is recorded in part.
\<close>

theorem stop_mid_slice_breaks_accounting:
  "start env_stop_mid_slice 20 initial_state = Some (Inr (final_state env_stop_mid_slice)) \<and>
   stop_event (final_state env_stop_mid_slice) \<and>
   polls (final_state env_stop_mid_slice) = 7 \<and>
   clock (final_state env_stop_mid_slice) = 4 \<and>
   burst (processes (final_state env_stop_mid_slice) ! 0) = 4 \<and>
   execution_history (processes (final_state env_stop_mid_slice) ! 0) = [] \<and>
   remaining (processes (final_state env_stop_mid_slice) ! 0) = 0 \<and>
   end_time (processes (final_state env_stop_mid_slice) ! 0) = Some 4 \<and>
   \<not> accounted (processes (final_state env_stop_mid_slice) ! 0) \<and>
   queue_proc (final_state env_stop_mid_slice) = [1, 2, 3, 4, 5]"
  by code_simp

section \<open>The clock\<close>

lemma dispatched_runs_append:
  "dispatched_runs (a @ b) = dispatched_runs a @ dispatched_runs b"
  by (induction a rule: dispatched_runs.induct) simp_all

lemma advancedI:
  assumes "log_box s' = log_box s @ new"
    and "clock s' = clock s + sum_list (dispatched_runs new)"
    and "list_all (\<lambda>r. 0 < r) (dispatched_runs new)"
  shows "advanced s s'"
  using assms by (simp add: advanced_def)

lemma advancedE:
  assumes "advanced s s'"
  obtains new where "log_box s' = log_box s @ new"
    and "clock s' = clock s + sum_list (dispatched_runs new)"
    and "list_all (\<lambda>r. 0 < r) (dispatched_runs new)"
  using assms unfolding advanced_def Let_def by blast

lemma advanced_refl: "advanced s s"
  by (rule advancedI [where new = "[]"]) simp_all

lemma advanced_same:
  "log_box s' = log_box s \<Longrightarrow> clock s' = clock s \<Longrightarrow> advanced s s'"
  by (rule advancedI [where new = "[]"]) simp_all

lemma advanced_trans:
  assumes "advanced a b" and "advanced b c"
  shows "advanced a c"
proof -
  from assms(1) obtain n1 where 1: "log_box b = log_box a @ n1"
    "clock b = clock a + sum_list (dispatched_runs n1)"
    "list_all (\<lambda>r. 0 < r) (dispatched_runs n1)" by (rule advancedE)
  from assms(2) obtain n2 where 2: "log_box c = log_box b @ n2"
    "clock c = clock b + sum_list (dispatched_runs n2)"
    "list_all (\<lambda>r. 0 < r) (dispatched_runs n2)" by (rule advancedE)
  show ?thesis
    by (rule advancedI [where new = "n1 @ n2"])
       (simp_all add: 1 2 dispatched_runs_append)
qed

lemma advanced_clock_le:
  assumes "advanced s s'"
  shows "clock s \<le> clock s'"
proof -
  from assms obtain new where n: "clock s' = clock s + sum_list (dispatched_runs new)"
    "list_all (\<lambda>r. 0 < r) (dispatched_runs new)" by (rule advancedE)
  have "0 \<le> sum_list (dispatched_runs new)"
    using n(2) by (intro sum_list_nonneg) (auto simp add: list_all_iff)
  with n(1) show ?thesis by simp
qed

lemma run_length_pos: "0 < remaining p \<Longrightarrow> 0 < run_length e p"
  by (simp add: run_length_def TIME_QUANTUM_def)

lemma dispatch_advanced:
  assumes pr: "pr < length (processes s)" and pos: "0 < remaining (processes s ! pr)"
    and d: "dispatch e c pr s = Inr s'"
  shows "advanced s s'"
proof -
  let ?new = "[LogDispatch c (pid (processes s ! pr)) (remaining (processes s ! pr))
          (run_length e (processes s ! pr))] @
       (if RUNNING_WITH_MPI (mpi_size e) \<and> recv e (recvs s) = None
        then [LogRecvError] else []) @
       (if 0 < slice_remaining e pr s
        then (if algo_var e = ''Round Robin''
              then [LogRequeued (pid (processes s ! pr)) (slice_remaining e pr s)] else [])
        else [LogCompleted (pid (processes s ! pr))])"
  have dr: "dispatched_runs ?new = [run_length e (processes s ! pr)]"
    by (simp add: dispatched_runs_append)
  show ?thesis
  proof (rule advancedI [where new = ?new])
    show "log_box s' = log_box s @ ?new" by (rule dispatch_state(3)[OF pr d])
    show "clock s' = clock s + sum_list (dispatched_runs ?new)"
      by (simp only: dr dispatch_state(1)[OF pr d]) simp
    show "list_all (\<lambda>r. 0 < r) (dispatched_runs ?new)"
      by (simp only: dr) (simp add: run_length_pos[OF pos])
  qed
qed

lemma queue_invD:
  assumes "queue_inv s" and "r \<in> set (queue_proc s)"
  shows "r < length (processes s)" and "0 < remaining (processes s ! r)"
  using assms by (auto simp add: queue_inv_def list_all_iff)

lemma queue_invI:
  assumes "distinct (queue_proc s)"
    and "\<And>r. r \<in> set (queue_proc s) \<Longrightarrow> r < length (processes s) \<and> 0 < remaining (processes s ! r)"
  shows "queue_inv s"
  using assms by (auto simp add: queue_inv_def list_all_iff)

lemma queue_inv_distinct: "queue_inv s \<Longrightarrow> distinct (queue_proc s)"
  by (simp add: queue_inv_def)

text \<open>One pass of the body of the CPU loop keeps the queue well formed.\<close>

lemma dispatch_queue_inv:
  assumes inv: "queue_inv s" and q: "queue_proc s = pr # q"
    and s1: "processes s1 = processes s" "queue_proc s1 = q"
    and d: "dispatch e c pr s1 = Inr s'"
  shows "queue_inv s'"
proof -
  have prq: "pr \<in> set (queue_proc s)" by (simp add: q)
  have pr: "pr < length (processes s1)" using queue_invD(1)[OF inv prq] by (simp add: s1)
  have dq: "distinct (pr # q)" using queue_inv_distinct[OF inv] by (simp add: q)
  have rest: "\<And>r. r \<in> set q \<Longrightarrow>
       r < length (processes s') \<and> 0 < remaining (processes s' ! r)"
  proof -
    fix r assume r: "r \<in> set q"
    then have rq: "r \<in> set (queue_proc s)" by (simp add: q)
    from r dq have ne: "r \<noteq> pr" by auto
    show "r < length (processes s') \<and> 0 < remaining (processes s' ! r)"
      using queue_invD[OF inv rq]
      by (simp add: dispatch_proc(8)[OF pr d] dispatch_proc(9)[OF pr d ne] s1)
  qed
  show ?thesis
  proof (cases "0 < slice_remaining e pr s1 \<and> algo_var e = ''Round Robin''")
    case True
    then have qs: "queue_proc s' = q @ [pr]"
      using dispatch_state(2)[OF pr d] by (simp add: s1)
    show ?thesis
    proof (rule queue_invI)
      show "distinct (queue_proc s')" using dq by (simp add: qs)
      fix r assume "r \<in> set (queue_proc s')"
      then have "r \<in> set q \<or> r = pr" by (auto simp add: qs)
      then show "r < length (processes s') \<and> 0 < remaining (processes s' ! r)"
      proof
        assume "r \<in> set q" then show ?thesis by (rule rest)
      next
        assume "r = pr"
        then show ?thesis
          using True pr by (simp add: dispatch_proc(1)[OF pr d] dispatch_proc(8)[OF pr d])
      qed
    qed
  next
    case False
    then have qs: "queue_proc s' = q"
      using dispatch_state(2)[OF pr d] by (simp add: s1)
    show ?thesis
    proof (rule queue_invI)
      show "distinct (queue_proc s')" using dq by (simp add: qs)
      fix r assume "r \<in> set (queue_proc s')"
      then have "r \<in> set q" by (simp add: qs)
      then show "r < length (processes s') \<and> 0 < remaining (processes s' ! r)" by (rule rest)
    qed
  qed
qed


lemma queue_inv_cong:
  "processes s1 = processes s \<Longrightarrow> queue_proc s1 = queue_proc s \<Longrightarrow> queue_inv s1 = queue_inv s"
  by (simp add: queue_inv_def)

lemma is_set_queue_inv: "queue_inv (snd (is_set e s)) = queue_inv s"
  by (rule queue_inv_cong) (simp_all add: is_set_fields)

lemma is_set_advanced: "advanced s (snd (is_set e s))"
  by (rule advanced_same) (simp_all add: is_set_fields)

lemma cpu_loop_inv:
  "queue_inv s \<Longrightarrow> \<exists>s'. cpu_loop e cs s = Inr s' \<and> queue_inv s' \<and> advanced s s'"
proof (induction cs arbitrary: s)
  case Nil
  then show ?case by (simp add: advanced_refl)
next
  case (Cons c cs)
  show ?case
  proof (cases "queue_proc s")
    case Nil
    with Cons.prems show ?thesis by (simp add: advanced_refl)
  next
    case (Cons pr q)
    let ?s1 = "snd (is_set e s)"
    show ?thesis
    proof (cases "fst (is_set e s)")
      case True
      then have "cpu_loop e (c # cs) s = Inr ?s1" using Cons by (simp add: split_beta)
      then show ?thesis
        using Cons.prems by (simp add: is_set_queue_inv is_set_advanced)
    next
      case False
      let ?s2 = "?s1\<lparr>queue_proc := q\<rparr>"
      have prq: "pr \<in> set (queue_proc s)" by (simp add: Cons)
      have p2: "processes ?s2 = processes s" by (simp add: is_set_fields)
      have pr: "pr < length (processes ?s2)"
        using queue_invD(1)[OF Cons.prems prq] by (simp add: p2)
      have pos: "0 < remaining (processes ?s2 ! pr)"
        using queue_invD(2)[OF Cons.prems prq] by (simp add: p2)
      have "0 \<le> run_length e (processes ?s2 ! pr)"
        using run_length_pos[OF pos, of e] by simp
      then obtain s3 where d: "dispatch e c pr ?s2 = Inr s3"
        using dispatch_Inr[of e ?s2 pr c] by blast
      have inv3: "queue_inv s3"
        by (rule dispatch_queue_inv[OF Cons.prems Cons _ _ d]) (simp_all add: is_set_fields)
      have adv3: "advanced s s3"
      proof (rule advanced_trans)
        show "advanced s ?s2" by (rule advanced_same) (simp_all add: is_set_fields)
        show "advanced ?s2 s3" by (rule dispatch_advanced[OF pr pos d])
      qed
      from Cons.IH[OF inv3] obtain s' where s': "cpu_loop e cs s3 = Inr s'"
        "queue_inv s'" "advanced s3 s'" by blast
      have "cpu_loop e (c # cs) s = Inr s'"
        using Cons False d s'(1) by (simp add: split_beta)
      then show ?thesis using s'(2) advanced_trans[OF adv3 s'(3)] by blast
    qed
  qed
qed

lemma sorted_queue_inv:
  assumes "queue_inv s"
  shows "queue_inv (s\<lparr>queue_proc := sorted_by_arrival (processes s) (queue_proc s)\<rparr>)"
  using assms by (simp add: queue_inv_def sorted_by_arrival_def list_all_iff)

lemma scheduler_loop_inv:
  "queue_inv s \<Longrightarrow> scheduler_loop e n s = Some r \<Longrightarrow>
   \<exists>s'. r = Inr s' \<and> queue_inv s' \<and> advanced s s'"
proof (induction n arbitrary: s)
  case 0
  then show ?case by simp
next
  case (Suc n)
  show ?case
  proof (cases "queue_proc s = []")
    case True
    with Suc.prems show ?thesis by (auto simp add: advanced_refl)
  next
    case ne: False
    let ?s1 = "snd (is_set e s)"
    show ?thesis
    proof (cases "fst (is_set e s)")
      case True
      with ne Suc.prems(2) have "r = Inr ?s1" by (simp add: split_beta)
      then show ?thesis using Suc.prems(1) by (simp add: is_set_queue_inv is_set_advanced)
    next
      case False
      let ?s2 = "(if algo_var e = ''FCFS''
                    then ?s1\<lparr>queue_proc := sorted_by_arrival (processes ?s1) (queue_proc ?s1)\<rparr>
                    else ?s1)"
      have inv1: "queue_inv ?s1" using Suc.prems(1) by (simp add: is_set_queue_inv)
      have inv2: "queue_inv ?s2" using inv1 sorted_queue_inv[OF inv1] by simp
      have adv2: "advanced s ?s2"
        by (rule advanced_same) (simp_all add: is_set_fields)
      from cpu_loop_inv[OF inv2, of e "[1..cpu_count (mpi_size e)]"]
      obtain s3 where s3: "cpu_loop e [1..cpu_count (mpi_size e)] ?s2 = Inr s3"
        "queue_inv s3" "advanced ?s2 s3" by blast
      have "scheduler_loop e (Suc n) s = scheduler_loop e n s3"
        using ne False s3(1) by (simp add: split_beta Let_def)
      with Suc.prems(2) have "scheduler_loop e n s3 = Some r" by simp
      from Suc.IH[OF s3(2) this] obtain s' where "r = Inr s'" "queue_inv s'" "advanced s3 s'"
        by blast
      then show ?thesis using advanced_trans[OF advanced_trans[OF adv2 s3(3)]] by blast
    qed
  qed
qed

lemma fold_log_box:
  "log_box (fold (\<lambda>p. log (f p)) ps s) = log_box s @ map f ps"
  by (induction ps arbitrary: s) simp_all

lemma dispatched_runs_LogProcess:
  "dispatched_runs (map (\<lambda>p. LogProcess (a p) (b p) (c p)) ps) = []"
  by (induction ps) simp_all

lemma init_run_queue_inv: "queue_inv (init_run e s)"
proof (rule queue_invI)
  show "distinct (queue_proc (init_run e s))" by (simp add: queue_init_run del: upt_Suc)
  fix r assume "r \<in> set (queue_proc (init_run e s))"
  then have r: "r < 6" by (simp add: queue_init_run del: upt_Suc)
  have "4 \<le> randint 4 10 (entropy e r)" using randint_bounds[of 4 10 "entropy e r"] by simp
  then show "r < length (processes (init_run e s)) \<and>
      0 < remaining (processes (init_run e s) ! r)"
    using r by (simp add: processes_init_run length_generate nth_generate Process_def)
qed

lemma init_run_log:
  "\<exists>new. log_box (init_run e s) = log_box s @ new \<and> dispatched_runs new = []"
proof -
  let ?new = "[LogUsing (algo_var e), LogProcessQueue] @
      map (\<lambda>p. LogProcess (pid p) (burst p) (arrival p)) (generate_processes e) @
      [LogSchedulingStarted]"
  have "log_box (init_run e s) = log_box s @ ?new"
    by (simp add: init_run_def Let_def fold_log_box)
  moreover have "dispatched_runs ?new = []"
    by (simp add: dispatched_runs_append dispatched_runs_LogProcess)
  ultimately show ?thesis by blast
qed

lemma show_completion_stats_advanced: "advanced s (show_completion_stats s)"
proof (cases "completion_stats (processes s)")
  case None
  then show ?thesis by (simp add: show_completion_stats_def advanced_refl)
next
  case (Some a)
  obtain x y where a: "a = (x, y)" by (cases a)
  show ?thesis
    by (rule advancedI [where new = "[LogStatistics, LogAvgTurnaround x, LogAvgWaiting y]"])
       (simp_all add: show_completion_stats_def Some a)
qed

lemma run_scheduler_result:
  assumes "run_scheduler e fuel s = Some r"
  shows "\<exists>s' new. r = Inr s' \<and> log_box s' = log_box s @ new \<and>
           clock s' = sum_list (dispatched_runs new) \<and>
           list_all (\<lambda>r. 0 < r) (dispatched_runs new)"
proof -
  let ?s0 = "init_run e s"
  from assms obtain r1 where r1: "scheduler_loop e fuel ?s0 = Some r1"
    by (cases "scheduler_loop e fuel ?s0") (simp_all add: run_scheduler_def)
  from scheduler_loop_inv[OF init_run_queue_inv r1]
  obtain s1 where s1: "r1 = Inr s1" "advanced ?s0 s1" by blast
  let ?s2 = "snd (is_set e s1)"
  let ?s' = "if \<not> fst (is_set e s1) then show_completion_stats (log LogAllCompleted ?s2) else ?s2"
  have r: "r = Inr ?s'"
    using assms r1 s1(1)
    by (cases "fst (is_set e s1)") (simp_all add: run_scheduler_def split_beta)
  have a2: "advanced s1 ?s2" by (rule is_set_advanced)
  have a3: "advanced ?s2 (log LogAllCompleted ?s2)"
    by (rule advancedI [where new = "[LogAllCompleted]"]) simp_all
  have a4: "advanced ?s2 ?s'"
    using advanced_trans[OF a3 show_completion_stats_advanced] by (simp add: advanced_refl)
  have "advanced ?s0 ?s'" by (rule advanced_trans[OF advanced_trans[OF s1(2) a2] a4])
  then obtain n2 where n2: "log_box ?s' = log_box ?s0 @ n2"
    "clock ?s' = clock ?s0 + sum_list (dispatched_runs n2)"
    "list_all (\<lambda>r. 0 < r) (dispatched_runs n2)" by (rule advancedE)
  obtain n1 where n1: "log_box ?s0 = log_box s @ n1" "dispatched_runs n1 = []"
    using init_run_log by blast
  have "log_box ?s' = log_box s @ (n1 @ n2)" by (simp only: n2(1) n1(1) append_assoc)
  moreover have "clock ?s' = sum_list (dispatched_runs (n1 @ n2))"
    by (simp add: n2(2) clock_init_run dispatched_runs_append n1(2))
  moreover have "list_all (\<lambda>r. 0 < r) (dispatched_runs (n1 @ n2))"
    using n2(3) by (simp add: dispatched_runs_append n1(2))
  ultimately show ?thesis using r by blast
qed

text \<open>
  No exception escapes a run: the only raise in the controller, \<^verbatim>\<open>time.sleep\<close> on a
  negative run length, needs a queued process with nothing left, and the queue never
  holds one.
\<close>

lemma run_scheduler_never_raises: "run_scheduler e fuel s \<noteq> Some (Inl err)"
  using run_scheduler_result [of e fuel s "Inl err"] by auto

subsection \<open>A run returns\<close>

lemma work_left_cong:
  "processes s1 = processes s \<Longrightarrow> queue_proc s1 = queue_proc s \<Longrightarrow> work_left s1 = work_left s"
  by (simp add: work_left_def)

lemma sum_list_insort_key:
  "sum_list (map f (insort_key g x xs)) = f x + sum_list (map (f :: 'a \<Rightarrow> nat) xs)"
  by (induction xs) simp_all

lemma sum_list_sort_key:
  "sum_list (map f (sort_key g xs)) = sum_list (map (f :: 'a \<Rightarrow> nat) xs)"
  by (induction xs) (simp_all add: sum_list_insort_key)

lemma work_left_sorted:
  "work_left (s\<lparr>queue_proc := sorted_by_arrival (processes s) (queue_proc s)\<rparr>) = work_left s"
  by (simp add: work_left_def sorted_by_arrival_def sum_list_sort_key)

text \<open>
  A slice leaves less work than it found, unless a worker says otherwise: the local
  backend and the fallback subtract a positive run length, and under FCFS the process
  is not queued again whatever the answer.
\<close>

lemma slice_progress:
  assumes pos: "0 < remaining (processes s ! pr)"
    and prog: "\<And>r. RUNNING_WITH_MPI (mpi_size e) \<Longrightarrow> algo_var e = ''Round Robin'' \<Longrightarrow>
               recv e (recvs s) = Some r \<Longrightarrow> r \<le> 0"
  shows "algo_var e = ''Round Robin'' \<Longrightarrow> slice_remaining e pr s < remaining (processes s ! pr)"
proof -
  assume rr: "algo_var e = ''Round Robin''"
  have run: "0 < run_length e (processes s ! pr)" by (rule run_length_pos[OF pos])
  show ?thesis
  proof (cases "RUNNING_WITH_MPI (mpi_size e)")
    case True
    show ?thesis
    proof (cases "recv e (recvs s)")
      case None
      then show ?thesis using True run pos by (simp add: slice_remaining_def Let_def)
    next
      case (Some r)
      with prog[OF True rr Some] True pos show ?thesis
        by (simp add: slice_remaining_def Let_def)
    qed
  next
    case False
    then show ?thesis using run pos by (simp add: slice_remaining_def Let_def)
  qed
qed

lemma dispatch_work_left:
  assumes inv: "queue_inv s" and q: "queue_proc s = pr # q"
    and s1: "processes s1 = processes s" "queue_proc s1 = q"
    and d: "dispatch e c pr s1 = Inr s'"
    and prog: "algo_var e = ''Round Robin'' \<Longrightarrow>
               slice_remaining e pr s1 < remaining (processes s ! pr)"
  shows "work_left s' < work_left s"
proof -
  have prq: "pr \<in> set (queue_proc s)" by (simp add: q)
  have pr: "pr < length (processes s1)" using queue_invD(1)[OF inv prq] by (simp add: s1)
  have pos: "0 < remaining (processes s ! pr)" by (rule queue_invD(2)[OF inv prq])
  have dq: "distinct (pr # q)" using queue_inv_distinct[OF inv] by (simp add: q)
  have same: "map (\<lambda>r. nat (remaining (processes s' ! r))) q =
              map (\<lambda>r. nat (remaining (processes s ! r))) q"
  proof (rule map_cong[OF refl])
    fix r assume "r \<in> set q"
    with dq have ne: "r \<noteq> pr" by auto
    show "nat (remaining (processes s' ! r)) = nat (remaining (processes s ! r))"
      by (simp add: dispatch_proc(9)[OF pr d ne] s1)
  qed
  have ws: "work_left s = nat (remaining (processes s ! pr)) +
              sum_list (map (\<lambda>r. nat (remaining (processes s ! r))) q)"
    by (simp add: work_left_def q)
  show ?thesis
  proof (cases "0 < slice_remaining e pr s1 \<and> algo_var e = ''Round Robin''")
    case True
    then have qs: "queue_proc s' = q @ [pr]"
      using dispatch_state(2)[OF pr d] by (simp add: s1)
    have "work_left s' = sum_list (map (\<lambda>r. nat (remaining (processes s ! r))) q) +
             nat (slice_remaining e pr s1)"
      by (simp add: work_left_def qs same dispatch_proc(1)[OF pr d])
    moreover have "nat (slice_remaining e pr s1) < nat (remaining (processes s ! pr))"
      using prog True pos by simp
    ultimately show ?thesis by (simp add: ws)
  next
    case False
    then have qs: "queue_proc s' = q"
      using dispatch_state(2)[OF pr d] by (simp add: s1)
    have "work_left s' = sum_list (map (\<lambda>r. nat (remaining (processes s ! r))) q)"
      by (simp add: work_left_def qs same)
    then show ?thesis using pos by (simp add: ws)
  qed
qed

lemma cpu_loop_work_left:
  assumes prog: "\<And>k r. RUNNING_WITH_MPI (mpi_size e) \<Longrightarrow> algo_var e = ''Round Robin'' \<Longrightarrow>
               recv e k = Some r \<Longrightarrow> r \<le> 0"
  shows "queue_inv s \<Longrightarrow> cpu_loop e cs s = Inr s' \<Longrightarrow>
     work_left s' \<le> work_left s \<and>
     (cs \<noteq> [] \<and> queue_proc s \<noteq> [] \<longrightarrow> stop_event s' \<or> work_left s' < work_left s)"
proof (induction cs arbitrary: s)
  case Nil
  then show ?case by simp
next
  case (Cons c cs)
  show ?case
  proof (cases "queue_proc s")
    case Nil
    with Cons.prems show ?thesis by simp
  next
    case (Cons pr q)
    let ?s1 = "snd (is_set e s)"
    show ?thesis
    proof (cases "fst (is_set e s)")
      case True
      then have "s' = ?s1" using Cons Cons.prems(2) by (simp add: split_beta)
      moreover have "work_left ?s1 = work_left s"
        by (rule work_left_cong) (simp_all add: is_set_fields)
      moreover have "stop_event ?s1" using True by (simp add: is_set_flag(2))
      ultimately show ?thesis by simp
    next
      case False
      let ?s2 = "?s1\<lparr>queue_proc := q\<rparr>"
      have prq: "pr \<in> set (queue_proc s)" by (simp add: Cons)
      have p2: "processes ?s2 = processes s" by (simp add: is_set_fields)
      have pos: "0 < remaining (processes ?s2 ! pr)"
        using queue_invD(2)[OF Cons.prems(1) prq] by (simp add: p2)
      have "0 \<le> run_length e (processes ?s2 ! pr)"
        using run_length_pos[OF pos, of e] by simp
      then obtain s3 where d: "dispatch e c pr ?s2 = Inr s3"
        using dispatch_Inr[of e ?s2 pr c] by blast
      have inv3: "queue_inv s3"
        by (rule dispatch_queue_inv[OF Cons.prems(1) Cons _ _ d]) (simp_all add: is_set_fields)
      have sp: "algo_var e = ''Round Robin'' \<Longrightarrow>
               slice_remaining e pr ?s2 < remaining (processes s ! pr)"
        using slice_progress[of ?s2 pr e, OF pos] prog by (simp add: p2)
      have w3: "work_left s3 < work_left s"
        by (rule dispatch_work_left[OF Cons.prems(1) Cons _ _ d sp]) (simp_all add: is_set_fields)
      have "cpu_loop e cs s3 = Inr s'"
        using Cons False d Cons.prems(2) by (simp add: split_beta)
      from Cons.IH[OF inv3 this] have "work_left s' \<le> work_left s3" by simp
      with w3 show ?thesis by simp
    qed
  qed
qed

lemma cpu_list_nonempty: "[1..cpu_count sz] \<noteq> []"
  by (simp add: cpu_count_def RUNNING_WITH_MPI_def NUM_CPUS_def upto.simps)

lemma scheduler_loop_stopped:
  "stop_event s \<Longrightarrow> \<exists>s'. scheduler_loop e (Suc n) s = Some (Inr s')"
  by (simp add: split_beta is_set_flag(1))

lemma scheduler_loop_returns:
  assumes prog: "\<And>k r. RUNNING_WITH_MPI (mpi_size e) \<Longrightarrow> algo_var e = ''Round Robin'' \<Longrightarrow>
               recv e k = Some r \<Longrightarrow> r \<le> 0"
  shows "queue_inv s \<Longrightarrow> work_left s < n \<Longrightarrow> \<exists>s'. scheduler_loop e (Suc n) s = Some (Inr s')"
proof (induction n arbitrary: s)
  case 0
  then show ?case by simp
next
  case (Suc n)
  show ?case
  proof (cases "queue_proc s = [] \<or> fst (is_set e s)")
    case True
    then show ?thesis by (auto simp add: split_beta)
  next
    case False
    let ?s1 = "snd (is_set e s)"
    let ?s2 = "(if algo_var e = ''FCFS''
                    then ?s1\<lparr>queue_proc := sorted_by_arrival (processes ?s1) (queue_proc ?s1)\<rparr>
                    else ?s1)"
    have inv1: "queue_inv ?s1" using Suc.prems(1) by (simp add: is_set_queue_inv)
    have inv2: "queue_inv ?s2" using inv1 sorted_queue_inv[OF inv1] by simp
    have w1: "work_left ?s1 = work_left s"
      by (rule work_left_cong) (simp_all add: is_set_fields)
    have w2: "work_left ?s2 = work_left s" by (simp add: work_left_sorted w1)
    have ne2: "queue_proc ?s2 \<noteq> []"
    proof
      assume "queue_proc ?s2 = []"
      then have "work_left ?s2 = 0" by (simp add: work_left_def)
      moreover have "0 < work_left s"
      proof -
        from False obtain pr q where q: "queue_proc s = pr # q" by (cases "queue_proc s") auto
        then have "pr \<in> set (queue_proc s)" by simp
        from queue_invD(2)[OF Suc.prems(1) this] show ?thesis by (simp add: work_left_def q)
      qed
      ultimately show False using w2 by simp
    qed
    from cpu_loop_inv[OF inv2, of e "[1..cpu_count (mpi_size e)]"]
    obtain s3 where s3: "cpu_loop e [1..cpu_count (mpi_size e)] ?s2 = Inr s3"
      "queue_inv s3" by blast
    from cpu_loop_work_left[OF prog inv2 s3(1)] ne2 cpu_list_nonempty
    have dec: "stop_event s3 \<or> work_left s3 < work_left s" by (simp add: w2)
    have step: "scheduler_loop e (Suc (Suc n)) s = scheduler_loop e (Suc n) s3"
      using False s3(1) by (simp add: split_beta Let_def)
    from dec show ?thesis
    proof
      assume "stop_event s3"
      then show ?thesis using scheduler_loop_stopped[of s3 e n] by (simp only: step)
    next
      assume "work_left s3 < work_left s"
      with Suc.prems(2) have "work_left s3 < n" by simp
      from Suc.IH[OF s3(2) this] show ?thesis by (simp only: step)
    qed
  qed
qed

lemma sum_list_bounded:
  "(\<And>x. x \<in> set xs \<Longrightarrow> f x \<le> (b::nat)) \<Longrightarrow> sum_list (map f xs) \<le> length xs * b"
  by (induction xs) (simp_all add: add_mono)

lemma work_left_init_run: "work_left (init_run e s) \<le> 60"
proof -
  have "sum_list (map (\<lambda>r. nat (remaining (processes (init_run e s) ! r))) [0..<6]) \<le>
          length [0..<6] * 10"
  proof (rule sum_list_bounded)
    fix r :: nat assume "r \<in> set [0..<6]"
    then have r: "r < 6" by simp
    have "randint 4 10 (entropy e r) \<le> 10" using randint_bounds[of 4 10 "entropy e r"] by simp
    then show "nat (remaining (processes (init_run e s) ! r)) \<le> 10"
      using r by (simp add: processes_init_run nth_generate Process_def)
  qed
  then show ?thesis by (simp add: work_left_def queue_init_run del: upt_Suc)
qed

lemma run_scheduler_returns:
  assumes prog: "\<And>k r. RUNNING_WITH_MPI (mpi_size e) \<Longrightarrow> algo_var e = ''Round Robin'' \<Longrightarrow>
               recv e k = Some r \<Longrightarrow> r \<le> 0"
    and fuel: "62 \<le> fuel"
  shows "\<exists>s'. run_scheduler e fuel s = Some (Inr s')"
proof -
  from fuel obtain n where n: "fuel = Suc n" "60 < n" by (cases fuel) auto
  have w: "work_left (init_run e s) < n" using work_left_init_run[of e s] n(2) by simp
  have "\<exists>s1. scheduler_loop e (Suc n) (init_run e s) = Some (Inr s1)"
  proof (rule scheduler_loop_returns)
    show "\<And>k r. RUNNING_WITH_MPI (mpi_size e) \<Longrightarrow> algo_var e = ''Round Robin'' \<Longrightarrow>
               recv e k = Some r \<Longrightarrow> r \<le> 0" by (rule prog)
    show "queue_inv (init_run e s)" by (rule init_run_queue_inv)
    show "work_left (init_run e s) < n" by (rule w)
  qed
  then obtain s1 where "scheduler_loop e fuel (init_run e s) = Some (Inr s1)"
    unfolding n(1) by blast
  then show ?thesis
    by (cases "fst (is_set e s1)") (simp_all add: run_scheduler_def split_beta)
qed

text \<open>
  Claim C6. A run starts with the clock at 0 and a well-formed queue. Polling the stop
  flag leaves the clock alone; a dispatch advances it by exactly the run length of the
  slice, which is positive; so from any well-formed state the loop over the CPUs and the
  scheduler loop can only move the clock forward, and they keep the queue well formed.
  When \<^verbatim>\<open>run_scheduler\<close> returns, the log has grown by the lines of this run, and the
  clock is the sum of the run lengths of the dispatches logged in them, each of them
  positive. This holds for both backends and also for a run that was stopped. The run
  does return, within 62 rounds, unless a worker under Round Robin keeps answering with
  a positive remainder: every local run, every FCFS run and every Round Robin run whose
  receives fail or deliver what \<open>worker_step\<close> computes (0 for a run length up to the
  quantum).
\<close>

theorem clock_advances_by_run_lengths:
  "queue_inv (init_run e s0) \<and>
   clock (init_run e s0) = 0 \<and>
   clock (snd (is_set e s)) = clock s \<and>
   (\<forall>c pr q s'. queue_inv s \<and> queue_proc s = pr # q \<and>
        dispatch e c pr (s\<lparr>queue_proc := q\<rparr>) = Inr s' \<longrightarrow>
        clock s' = clock s + run_length e (processes s ! pr) \<and> clock s < clock s' \<and>
        queue_inv s') \<and>
   (\<forall>cs s'. queue_inv s \<and> cpu_loop e cs s = Inr s' \<longrightarrow> clock s \<le> clock s' \<and> queue_inv s') \<and>
   (\<forall>n s'. queue_inv s \<and> scheduler_loop e n s = Some (Inr s') \<longrightarrow>
        clock s \<le> clock s' \<and> queue_inv s') \<and>
   (\<forall>fuel s'. run_scheduler e fuel s0 = Some (Inr s') \<longrightarrow>
        log_box s' = log_box s0 @ drop (length (log_box s0)) (log_box s') \<and>
        clock s' = sum_list (dispatched_runs (drop (length (log_box s0)) (log_box s'))) \<and>
        list_all (\<lambda>r. 0 < r) (dispatched_runs (drop (length (log_box s0)) (log_box s'))) \<and>
        0 \<le> clock s') \<and>
   ((\<forall>k r. RUNNING_WITH_MPI (mpi_size e) \<and> algo_var e = ''Round Robin'' \<and>
           recv e k = Some r \<longrightarrow> r \<le> 0) \<longrightarrow>
    (\<forall>fuel. 62 \<le> fuel \<longrightarrow> (\<exists>s'. run_scheduler e fuel s0 = Some (Inr s'))))"
proof (intro conjI allI impI)
  show "queue_inv (init_run e s0)" by (rule init_run_queue_inv)
  show "clock (init_run e s0) = 0" by (rule clock_init_run)
  show "clock (snd (is_set e s)) = clock s" by (rule is_set_fields)
next
  fix c pr q s'
  assume a: "queue_inv s \<and> queue_proc s = pr # q \<and> dispatch e c pr (s\<lparr>queue_proc := q\<rparr>) = Inr s'"
  then have inv: "queue_inv s" and q: "queue_proc s = pr # q"
    and d: "dispatch e c pr (s\<lparr>queue_proc := q\<rparr>) = Inr s'" by simp_all
  have prq: "pr \<in> set (queue_proc s)" by (simp add: q)
  have pr: "pr < length (processes (s\<lparr>queue_proc := q\<rparr>))"
    using queue_invD(1)[OF inv prq] by simp
  have pos: "0 < remaining (processes s ! pr)" by (rule queue_invD(2)[OF inv prq])
  show "clock s' = clock s + run_length e (processes s ! pr)"
    using dispatch_state(1)[OF pr d] by simp
  then show "clock s < clock s'" using run_length_pos[OF pos, of e] by simp
  show "queue_inv s'" by (rule dispatch_queue_inv[OF inv q _ _ d]) simp_all
next
  fix cs s' assume a: "queue_inv s \<and> cpu_loop e cs s = Inr s'"
  then have "queue_inv s' \<and> advanced s s'" using cpu_loop_inv[of s e cs] by auto
  then show "clock s \<le> clock s'" "queue_inv s'" by (simp_all add: advanced_clock_le)
next
  fix n s' assume a: "queue_inv s \<and> scheduler_loop e n s = Some (Inr s')"
  then have "queue_inv s' \<and> advanced s s'" using scheduler_loop_inv[of s e n "Inr s'"] by auto
  then show "clock s \<le> clock s'" "queue_inv s'" by (simp_all add: advanced_clock_le)
next
  fix fuel s' assume a: "run_scheduler e fuel s0 = Some (Inr s')"
  from run_scheduler_result[OF a] obtain new where n: "log_box s' = log_box s0 @ new"
    "clock s' = sum_list (dispatched_runs new)" "list_all (\<lambda>r. 0 < r) (dispatched_runs new)"
    by blast
  have new: "drop (length (log_box s0)) (log_box s') = new" by (simp add: n(1))
  show "log_box s' = log_box s0 @ drop (length (log_box s0)) (log_box s')"
    by (simp add: n(1))
  show "clock s' = sum_list (dispatched_runs (drop (length (log_box s0)) (log_box s')))"
    by (simp only: new n(2))
  show "list_all (\<lambda>r. 0 < r) (dispatched_runs (drop (length (log_box s0)) (log_box s')))"
    by (simp only: new n(3))
  have "0 \<le> sum_list (dispatched_runs new)"
    using n(3) by (intro sum_list_nonneg) (auto simp add: list_all_iff)
  then show "0 \<le> clock s'" by (simp add: n(2))
next
  fix fuel :: nat
  assume prog: "\<forall>k r. RUNNING_WITH_MPI (mpi_size e) \<and> algo_var e = ''Round Robin'' \<and>
           recv e k = Some r \<longrightarrow> r \<le> 0" and fuel: "62 \<le> fuel"
  show "\<exists>s'. run_scheduler e fuel s0 = Some (Inr s')"
  proof (rule run_scheduler_returns)
    show "\<And>k r. RUNNING_WITH_MPI (mpi_size e) \<Longrightarrow> algo_var e = ''Round Robin'' \<Longrightarrow>
               recv e k = Some r \<Longrightarrow> r \<le> 0" using prog by blast
    show "62 \<le> fuel" by (rule fuel)
  qed
qed

theorem clock_advances_by_run_lengths_witness:
  "queue_inv (first_state env_local_rr) \<and>
   queue_proc (first_state env_local_rr) = [0, 1, 2, 3, 4, 5] \<and>
   clock (projr (dispatch env_local_rr 1 0
            ((first_state env_local_rr)\<lparr>queue_proc := [1, 2, 3, 4, 5]\<rparr>))) = 2 \<and>
   run_scheduler env_local_rr 20 initial_state =
     Some (Inr (projr (the (run_scheduler env_local_rr 20 initial_state)))) \<and>
   dispatched_runs (log_box (projr (the (run_scheduler env_local_rr 20 initial_state))))
     = [2, 2, 2, 2, 2, 2, 2, 2, 2, 2, 2, 2] \<and>
   clock (projr (the (run_scheduler env_local_rr 20 initial_state))) = 24 \<and>
   (\<exists>s'. run_scheduler env_local_rr 62 initial_state = Some (Inr s'))"
proof -
  let ?e = "env_local_rr"
  let ?s = "first_state env_local_rr"
  let ?d = "projr (dispatch ?e 1 0 (?s\<lparr>queue_proc := [1, 2, 3, 4, 5]\<rparr>))"
  let ?f = "projr (the (run_scheduler ?e 20 initial_state))"
  note T = clock_advances_by_run_lengths [of ?e initial_state ?s]
  have inv: "queue_inv ?s" using T by (simp only: first_state_def)
  have q: "queue_proc ?s = 0 # [1, 2, 3, 4, 5]" by code_simp
  have d: "dispatch ?e 1 0 (?s\<lparr>queue_proc := [1, 2, 3, 4, 5]\<rparr>) = Inr ?d" by code_simp
  have r: "run_scheduler ?e 20 initial_state = Some (Inr ?f)" by code_simp
  have v: "clock ?s = 0" "run_length ?e (processes ?s ! 0) = 2" "log_box initial_state = []"
    "dispatched_runs (log_box ?f) = [2, 2, 2, 2, 2, 2, 2, 2, 2, 2, 2, 2]"
    by code_simp+
  from T inv q d have "clock ?d = clock ?s + run_length ?e (processes ?s ! 0)" by blast
  then have c1: "clock ?d = 2" by (simp add: v)
  from T r have "clock ?f =
      sum_list (dispatched_runs (drop (length (log_box initial_state)) (log_box ?f)))"
    by blast
  then have c2: "clock ?f = 24" by (simp add: v)
  have loc: "\<not> RUNNING_WITH_MPI (mpi_size ?e)" by code_simp
  from T loc have c3: "\<exists>s'. run_scheduler ?e 62 initial_state = Some (Inr s')" by blast
  show ?thesis using inv q c1 r v(4) c2 c3 by simp
qed

section \<open>FCFS: no process leaves with work undone\<close>














end
